theory Spec2Isabelle
  imports Main "HOL-Library.Word"
begin

unbundle bit_operations_syntax

section \<open>JavaScript strings and the string methods used by app.js\<close>

text \<open>
  A JavaScript string is a sequence of 16-bit code units; the body of a response arrives
  as chunks of bytes.  String literals of the source that are plain ASCII are written
  with \<open>js\<close>; the Chinese status texts are given by their code units.
\<close>

type_synonym byte = "8 word"
type_synonym code_unit = "16 word"
type_synonym jsstring = "code_unit list"

definition js :: "string \<Rightarrow> jsstring" where
  "js cs = map of_char cs"

definition bytes :: "string \<Rightarrow> byte list" where
  "bytes cs = map of_char cs"

text \<open>\<^verbatim>\<open>"\n"\<close>, \<^verbatim>\<open>"\n\n"\<close> and the two-character text backslash, n.\<close>

definition nl :: jsstring where
  "nl = [0x0A]"

definition nlnl :: jsstring where
  "nlnl = [0x0A, 0x0A]"

definition backslash_n :: jsstring where
  "backslash_n = [0x5C, 0x6E]"

text \<open>\<^verbatim>\<open>s.startsWith(p)\<close>\<close>

definition startsWith :: "jsstring \<Rightarrow> jsstring \<Rightarrow> bool" where
  "startsWith s p = (take (length p) s = p)"

text \<open>\<^verbatim>\<open>s.slice(n)\<close> for a non-negative literal \<open>n\<close>: the text from index \<open>n\<close> on.\<close>

definition slice_js :: "jsstring \<Rightarrow> nat \<Rightarrow> jsstring" where
  "slice_js s n = drop n s"

text \<open>
  \<^verbatim>\<open>s.trim()\<close> removes the ECMAScript WhiteSpace and LineTerminator code points from
  both ends: TAB, LF, VT, FF, CR, SPACE, NBSP, U+1680, U+2000..U+200A, U+2028, U+2029,
  U+202F, U+205F, U+3000 and U+FEFF.
\<close>

definition is_white :: "code_unit \<Rightarrow> bool" where
  "is_white c = (c = 0x09 \<or> c = 0x0A \<or> c = 0x0B \<or> c = 0x0C \<or> c = 0x0D \<or> c = 0x20
     \<or> c = 0xA0 \<or> c = 0x1680 \<or> (0x2000 \<le> c \<and> c \<le> 0x200A) \<or> c = 0x2028 \<or> c = 0x2029
     \<or> c = 0x202F \<or> c = 0x205F \<or> c = 0x3000 \<or> c = 0xFEFF)"

definition trim :: "jsstring \<Rightarrow> jsstring" where
  "trim s = rev (dropWhile is_white (rev (dropWhile is_white s)))"

text \<open>
  \<^verbatim>\<open>s.split(sep)\<close>: the pieces between the occurrences of \<open>sep\<close>, found from the left
  and not overlapping; the empty string splits into one empty piece.  With the empty
  separator the string splits into its code units.
\<close>

function split_ne :: "jsstring \<Rightarrow> jsstring \<Rightarrow> jsstring list" where
  "split_ne sep [] = [[]]"
| "split_ne sep (c # cs) =
     (if sep \<noteq> [] \<and> startsWith (c # cs) sep
      then [] # split_ne sep (drop (length sep) (c # cs))
      else (case split_ne sep cs of
              [] \<Rightarrow> [[c]]
            | p # ps \<Rightarrow> (c # p) # ps))"
  by pat_completeness auto
termination
  by (relation "measure (\<lambda>(sep, s). length s)") auto

definition split :: "jsstring \<Rightarrow> jsstring \<Rightarrow> jsstring list" where
  "split s sep = (if sep = [] then map (\<lambda>c. [c]) s else split_ne sep s)"

text \<open>\<^verbatim>\<open>xs.join(sep)\<close>\<close>

fun join :: "jsstring list \<Rightarrow> jsstring \<Rightarrow> jsstring" where
  "join [] sep = []"
| "join [x] sep = x"
| "join (x # y # ys) sep = x @ sep @ join (y # ys) sep"

text \<open>\<^verbatim>\<open>s.replaceAll(pat, rep)\<close> for string arguments, \<open>rep\<close> without \<^verbatim>\<open>$\<close>.\<close>

function replaceAll :: "jsstring \<Rightarrow> jsstring \<Rightarrow> jsstring \<Rightarrow> jsstring" where
  "replaceAll [] pat rep = []"
| "replaceAll (c # cs) pat rep =
     (if pat \<noteq> [] \<and> startsWith (c # cs) pat
      then rep @ replaceAll (drop (length pat) (c # cs)) pat rep
      else c # replaceAll cs pat rep)"
  by pat_completeness auto
termination
  by (relation "measure (\<lambda>(s, pat, rep). length s)") auto

text \<open>A non-negative integer in a template literal: its decimal digits.\<close>

function show_nat :: "nat \<Rightarrow> jsstring" where
  "show_nat n = (if n < 10 then [of_nat (48 + n)]
                 else show_nat (n div 10) @ [of_nat (48 + n mod 10)])"
  by pat_completeness auto
termination
  by (relation "measure (\<lambda>n. n)") auto

section \<open>The streaming UTF-8 decoder\<close>

text \<open>
  \<^verbatim>\<open>new TextDecoder()\<close> is a UTF-8 decoder that replaces malformed input by U+FFFD and
  drops a leading byte order mark.  \<^verbatim>\<open>decoder.decode(value, { stream: true })\<close> keeps
  the decoder's state between calls and does not flush it at the end of \<open>value\<close>.  The
  state is that of the Encoding Standard's UTF-8 decoder together with the
  "BOM seen" flag.
\<close>

record utf8_state =
  code_point :: nat
  bytes_seen :: nat
  bytes_needed :: nat
  lower_boundary :: byte
  upper_boundary :: byte

record decoder =
  utf8 :: utf8_state
  bom_seen :: bool

definition utf8_init :: utf8_state where
  "utf8_init = \<lparr>code_point = 0, bytes_seen = 0, bytes_needed = 0,
                 lower_boundary = 0x80, upper_boundary = 0xBF\<rparr>"

definition new_TextDecoder :: decoder where
  "new_TextDecoder = \<lparr>utf8 = utf8_init, bom_seen = False\<rparr>"

text \<open>The handler on a byte when no continuation byte is pending.\<close>

definition utf8_lead :: "utf8_state \<Rightarrow> byte \<Rightarrow> utf8_state \<times> nat list" where
  "utf8_lead u b =
     (if b \<le> 0x7F then (u, [unat b])
      else if 0xC2 \<le> b \<and> b \<le> 0xDF then
        (u\<lparr>bytes_needed := 1, code_point := unat (b AND 0x1F)\<rparr>, [])
      else if 0xE0 \<le> b \<and> b \<le> 0xEF then
        (u\<lparr>lower_boundary := (if b = 0xE0 then 0xA0 else lower_boundary u),
           upper_boundary := (if b = 0xED then 0x9F else upper_boundary u),
           bytes_needed := 2, code_point := unat (b AND 0x0F)\<rparr>, [])
      else if 0xF0 \<le> b \<and> b \<le> 0xF4 then
        (u\<lparr>lower_boundary := (if b = 0xF0 then 0x90 else lower_boundary u),
           upper_boundary := (if b = 0xF4 then 0x8F else upper_boundary u),
           bytes_needed := 3, code_point := unat (b AND 0x07)\<rparr>, [])
      else (u, [0xFFFD]))"

text \<open>
  The handler on any byte.  A byte outside the expected range ends the pending
  sequence with U+FFFD and is then handled again as a leading byte.
\<close>

definition utf8_handler :: "utf8_state \<Rightarrow> byte \<Rightarrow> utf8_state \<times> nat list" where
  "utf8_handler u b =
     (if bytes_needed u = 0 then utf8_lead u b
      else if \<not> (lower_boundary u \<le> b \<and> b \<le> upper_boundary u) then
        (let (u', out) = utf8_lead utf8_init b in (u', 0xFFFD # out))
      else
        (let cp = push_bit 6 (code_point u) OR unat (b AND 0x3F);
             u1 = u\<lparr>lower_boundary := 0x80, upper_boundary := 0xBF,
                    code_point := cp, bytes_seen := bytes_seen u + 1\<rparr>
         in if bytes_seen u1 \<noteq> bytes_needed u1 then (u1, [])
            else (u1\<lparr>code_point := 0, bytes_needed := 0, bytes_seen := 0\<rparr>, [cp])))"

fun utf8_run :: "utf8_state \<Rightarrow> byte list \<Rightarrow> utf8_state \<times> nat list" where
  "utf8_run u [] = (u, [])"
| "utf8_run u (b # bs) =
     (let (u1, out) = utf8_handler u b;
          (u2, rest) = utf8_run u1 bs
      in (u2, out @ rest))"

text \<open>A scalar value as UTF-16 code units.\<close>

definition utf16 :: "nat \<Rightarrow> jsstring" where
  "utf16 cp =
     (if cp < 0x10000 then [of_nat cp]
      else [of_nat (0xD800 + (cp - 0x10000) div 0x400),
            of_nat (0xDC00 + (cp - 0x10000) mod 0x400)])"

text \<open>Serialising the decoded scalar values: the first one is dropped when it is U+FEFF.\<close>

fun serialize :: "bool \<Rightarrow> nat list \<Rightarrow> bool \<times> jsstring" where
  "serialize seen [] = (seen, [])"
| "serialize seen (cp # cps) =
     (if \<not> seen \<and> cp = 0xFEFF then serialize True cps
      else (let (seen', rest) = serialize True cps in (seen', utf16 cp @ rest)))"

text \<open>\<^verbatim>\<open>decoder.decode(value, { stream: true })\<close>: the new decoder state and the text.\<close>

definition decode :: "decoder \<Rightarrow> byte list \<Rightarrow> decoder \<times> jsstring" where
  "decode d v =
     (let (u, cps) = utf8_run (utf8 d) v;
          (seen, txt) = serialize (bom_seen d) cps
      in (\<lparr>utf8 = u, bom_seen = seen\<rparr>, txt))"

section \<open>Module state, the page and the backend\<close>

text \<open>
  \<^verbatim>\<open>new Error(msg)\<close> has the name \<^verbatim>\<open>Error\<close>; a rejected fetch or read carries the
  error of the transport (an \<^verbatim>\<open>AbortError\<close> when the request's signal was aborted).
\<close>

datatype js_error = JsError (name: jsstring) (message: jsstring)

definition new_Error :: "jsstring \<Rightarrow> js_error" where
  "new_Error msg = JsError (js ''Error'') msg"

text \<open>\<^verbatim>\<open>String(e)\<close>\<close>

definition String_of_error :: "js_error \<Rightarrow> jsstring" where
  "String_of_error e =
     (if name e = [] then message e
      else if message e = [] then name e
      else name e @ js '': '' @ message e)"

text \<open>The URLs that app.js fetches.\<close>

datatype endpoint =
    CardsStatic   \<comment> \<open>\<^verbatim>\<open>GET /static/Cards.json\<close>\<close>
  | CardsLocal    \<comment> \<open>\<^verbatim>\<open>GET ./Cards.json\<close>\<close>
  | DialogInit    \<comment> \<open>\<^verbatim>\<open>POST /api/dialog/init\<close>\<close>
  | History       \<comment> \<open>\<^verbatim>\<open>GET /api/history?runtime_id=..&dialog_id=..\<close>\<close>
  | ChatStop      \<comment> \<open>\<^verbatim>\<open>POST /api/chat/stop\<close>\<close>
  | ChatStream    \<comment> \<open>\<^verbatim>\<open>POST /api/chat/stream\<close>\<close>

text \<open>
  The module's variables (\<open>dialogId\<close>, \<open>controller\<close>, \<open>streaming\<close>) and the page.  An
  element that the page does not have is \<open>None\<close>; a text element is its \<open>textContent\<close>,
  a button its \<open>disabled\<close> property.  Every \<^verbatim>\<open>new AbortController()\<close> gets the next
  index of \<open>signals\<close>, which holds each controller's \<open>signal.aborted\<close>.  The last three
  fields record what the run did: the fetches issued, the number of \<open>reader.read()\<close>
  calls, and the (event, data) pair of every segment handed to the routing chain.
\<close>

record app_state =
  dialogId :: jsstring
  controller :: "nat option"
  signals :: "bool list"
  streaming :: bool
  statusEl :: "jsstring option"
  reasonBox :: "jsstring option"
  answerBox :: "jsstring option"
  historyBox :: "jsstring option"
  sendBtn :: "bool option"
  stopBtn :: "bool option"
  fetches :: "endpoint list"
  reads :: nat
  emitted :: "(jsstring \<times> jsstring) list"

text \<open>
  What the backend and the network answer during one call.  The abort of a controller
  reaches the call that owns it through the network: its pending \<open>fetch\<close> or
  \<open>reader.read()\<close> rejects, which is an \<open>InitThrows\<close>, \<open>StreamThrows\<close> or \<open>ReadThrows\<close>
  here.
\<close>

datatype init_result =
    InitThrows js_error
      \<comment> \<open>\<open>fetch\<close> or \<open>r.json()\<close> rejects\<close>
  | InitResponse (init_status: nat) (js_ok: bool) (js_err: "jsstring option")
      (js_dialog_id: jsstring)
      \<comment> \<open>HTTP status, and the fields \<open>ok\<close>, \<open>error\<close>, \<open>dialog_id\<close> of the JSON body\<close>

datatype read_result =
    Chunk "byte list"       \<comment> \<open>\<open>{ value, done: false }\<close>\<close>
  | ReadThrows js_error     \<comment> \<open>\<open>reader.read()\<close> rejects\<close>

datatype stream_result =
    StreamThrows js_error
      \<comment> \<open>\<open>fetch\<close> rejects\<close>
  | StreamResponse (stream_status: nat) (stream_body: "read_result list option")
      \<comment> \<open>HTTP status and the body: \<open>None\<close> is \<open>res.body == null\<close>, otherwise what the
          successive reads return; after the last entry a read returns \<open>done\<close>\<close>

record world =
  cards_static_ok :: bool
    \<comment> \<open>whether the first cards request succeeds; if not, the second one is made\<close>
  cards_local_ok :: bool
    \<comment> \<open>whether the second one succeeds; \<open>loadCards\<close> absorbs its failure\<close>
  init_reply :: init_result
  stream_reply :: stream_result
  history_reply :: "jsstring option"
    \<comment> \<open>the history as rendered by \<open>JSON.stringify\<close>, \<open>None\<close> when \<open>getJSON\<close> throws\<close>
  stop_ok :: bool
    \<comment> \<open>whether the stop request succeeds; \<open>stopStream\<close> absorbs its failure\<close>

text \<open>\<open>res.ok\<close>\<close>

definition http_ok :: "nat \<Rightarrow> bool" where
  "http_ok st = (200 \<le> st \<and> st \<le> 299)"

subsection \<open>Helper functions of app.js\<close>

text \<open>\<^verbatim>\<open>function setStatus(t) { if (statusEl) statusEl.textContent = t || ""; }\<close>\<close>

definition setStatus :: "jsstring \<Rightarrow> app_state \<Rightarrow> app_state" where
  "setStatus t s = s\<lparr>statusEl := map_option (\<lambda>_. t) (statusEl s)\<rparr>"

text \<open>\<^verbatim>\<open>function appendText(el, txt) { if (!el) return; el.textContent += txt; ... }\<close>\<close>

definition appendText :: "jsstring option \<Rightarrow> jsstring \<Rightarrow> jsstring option" where
  "appendText el txt = map_option (\<lambda>t. t @ txt) el"

text \<open>\<^verbatim>\<open>function clearBox(el) { if (!el) return; el.textContent = ""; }\<close>\<close>

definition clearBox :: "jsstring option \<Rightarrow> jsstring option" where
  "clearBox el = map_option (\<lambda>_. []) el"

text \<open>\<^verbatim>\<open>if (btn) btn.disabled = v;\<close>\<close>

definition set_disabled :: "bool \<Rightarrow> bool option \<Rightarrow> bool option" where
  "set_disabled v btn = map_option (\<lambda>_. v) btn"

definition fetch :: "endpoint \<Rightarrow> app_state \<Rightarrow> app_state" where
  "fetch e s = s\<lparr>fetches := fetches s @ [e]\<rparr>"

text \<open>The status texts.\<close>

definition status_ready :: jsstring where
  "status_ready = [0x4F1A, 0x8BDD, 0x5C31, 0x7EEA, 0xFF1A]"

definition status_stopped :: jsstring where
  "status_stopped = [0x5DF2, 0x505C, 0x6B62]"

definition status_connecting :: jsstring where
  "status_connecting = [0x8FDE, 0x63A5, 0x4E2D, 0x2026]"

definition status_request_failed :: jsstring where
  "status_request_failed = [0x8BF7, 0x6C42, 0x5931, 0x8D25, 0xFF1A]"

definition status_streaming :: jsstring where
  "status_streaming = [0x6D41, 0x5F0F, 0x4E2D, 0x2026]"

definition status_meta :: jsstring where
  "status_meta = [0x5DF2, 0x8FDE, 0x63A5, 0xFF08, 0x6D, 0x65, 0x74, 0x61, 0xFF09]"

definition status_error :: jsstring where
  "status_error = [0x9519, 0x8BEF, 0xFF1A]"

definition status_done :: jsstring where
  "status_done = [0x5B8C, 0x6210]"

definition status_interrupted :: jsstring where
  "status_interrupted = [0x8FDE, 0x63A5, 0x4E2D, 0x65AD, 0xFF1A]"

subsection \<open>loadCards, initDialog, loadHistory, stopStream\<close>

text \<open>
  \<open>loadCards\<close> tries \<^verbatim>\<open>/static/Cards.json\<close>, then \<^verbatim>\<open>./Cards.json\<close>, and never throws.
  The card list itself only travels in the body of the init request; it and its
  display are left out.
\<close>

definition loadCards :: "world \<Rightarrow> app_state \<Rightarrow> app_state" where
  "loadCards w s =
     (let s1 = fetch CardsStatic s
      in if cards_static_ok w then s1 else fetch CardsLocal s1)"

text \<open>
  An async function either fulfils or rejects: the result is the error, if any, and the
  state it leaves.
  \<^verbatim>\<open>
  const js = await r.json();
  if (!r.ok || !js.ok) throw new Error(js.error || "init failed");
  dialogId = js.dialog_id;
  setStatus(`...${dialogId}`);
  \<close>
\<close>

definition initDialog :: "world \<Rightarrow> app_state \<Rightarrow> js_error option \<times> app_state" where
  "initDialog w s =
     (let s1 = fetch DialogInit (loadCards w s)
      in case init_reply w of
           InitThrows e \<Rightarrow> (Some e, s1)
         | InitResponse st ok err did \<Rightarrow>
             if \<not> http_ok st \<or> \<not> ok then
               (Some (new_Error (case err of None \<Rightarrow> js ''init failed''
                                 | Some m \<Rightarrow> if m = [] then js ''init failed'' else m)), s1)
             else (None, setStatus (status_ready @ did) (s1\<lparr>dialogId := did\<rparr>)))"

definition loadHistory :: "world \<Rightarrow> app_state \<Rightarrow> app_state" where
  "loadHistory w s =
     (let s1 = fetch History s
      in case history_reply w of
           None \<Rightarrow> s1
         | Some txt \<Rightarrow> s1\<lparr>historyBox := map_option (\<lambda>_. txt) (historyBox s1)\<rparr>)"

text \<open>\<^verbatim>\<open>controller.abort()\<close>\<close>

definition abort :: "nat \<Rightarrow> app_state \<Rightarrow> app_state" where
  "abort i s = s\<lparr>signals := (signals s)[i := True]\<rparr>"

text \<open>
  \<^verbatim>\<open>
  async function stopStream() {
    try { if (controller) controller.abort(); } catch {}
    try { await fetch(api("/api/chat/stop"), {...}); } catch {}
    streaming = false;
    setStatus("...");
    if (sendBtn) sendBtn.disabled = false;
    if (stopBtn) stopBtn.disabled = true;
  }
  \<close>
  Both \<open>try\<close> blocks swallow what they catch, so the outcome of the stop request does
  not matter.
\<close>

definition stopStream :: "world \<Rightarrow> app_state \<Rightarrow> js_error option \<times> app_state" where
  "stopStream w s =
     (let s1 = (case controller s of None \<Rightarrow> s | Some i \<Rightarrow> abort i s);
          s2 = fetch ChatStop s1;
          s3 = setStatus status_stopped (s2\<lparr>streaming := False\<rparr>)
      in (None, s3\<lparr>sendBtn := set_disabled False (sendBtn s3),
                   stopBtn := set_disabled True (stopBtn s3)\<rparr>))"

section \<open>startStream\<close>

subsection \<open>One segment: lines 148 to 173\<close>

text \<open>
  \<^verbatim>\<open>
  for (const line of lines) {
    if (line.startsWith("event:")) { evt = line.slice(6).trim(); }
    else if (line.startsWith("data:")) { dataLines.push(line.slice(5).trim()); }
  }
  \<close>
\<close>

fun scan_lines :: "jsstring list \<Rightarrow> jsstring \<Rightarrow> jsstring list \<Rightarrow> jsstring \<times> jsstring list" where
  "scan_lines [] evt dataLines = (evt, dataLines)"
| "scan_lines (line # lines) evt dataLines =
     (if startsWith line (js ''event:'') then
        scan_lines lines (trim (slice_js line 6)) dataLines
      else if startsWith line (js ''data:'') then
        scan_lines lines evt (dataLines @ [trim (slice_js line 5)])
      else scan_lines lines evt dataLines)"

text \<open>The event name and the joined data of a segment (\<open>chunk\<close> in the source).\<close>

definition parse_segment :: "jsstring \<Rightarrow> jsstring \<times> jsstring" where
  "parse_segment chunk =
     (let (evt, dataLines) = scan_lines (split chunk nl) (js ''message'') []
      in (evt, join dataLines nl))"

text \<open>The routing chain, lines 160 to 173.\<close>

definition dispatch :: "jsstring \<Rightarrow> jsstring \<Rightarrow> app_state \<Rightarrow> app_state" where
  "dispatch evt data s =
     (if evt = js ''meta'' then setStatus status_meta s
      else if evt = js ''reason'' then
        s\<lparr>reasonBox := appendText (reasonBox s) (replaceAll data backslash_n nl)\<rparr>
      else if evt = js ''answer'' then
        s\<lparr>answerBox := appendText (answerBox s) (replaceAll data backslash_n nl)\<rparr>
      else if evt = js ''error'' then setStatus (status_error @ data) s
      else if evt = js ''done'' then
        (let s1 = setStatus status_done s
         in s1\<lparr>streaming := False,
                sendBtn := set_disabled False (sendBtn s1),
                stopBtn := set_disabled True (stopBtn s1)\<rparr>)
      else s)"

definition handle_segment :: "jsstring \<Rightarrow> app_state \<Rightarrow> app_state" where
  "handle_segment chunk s =
     (let (evt, data) = parse_segment chunk
      in dispatch evt data (s\<lparr>emitted := emitted s @ [(evt, data)]\<rparr>))"

fun handle_segments :: "jsstring list \<Rightarrow> app_state \<Rightarrow> app_state" where
  "handle_segments [] s = s"
| "handle_segments (chunk # parts) s = handle_segments parts (handle_segment chunk s)"

subsection \<open>The read loop: lines 139 to 175\<close>

text \<open>
  What one iteration does with the bytes it has read:
  \<^verbatim>\<open>
  buf += decoder.decode(value, { stream: true });
  let parts = buf.split("\n\n");
  buf = parts.pop() || "";
  for (const chunk of parts) { ... }
  \<close>
  \<open>pop\<close> takes the last piece off \<open>parts\<close>; on an empty array it gives \<open>undefined\<close>,
  which \<^verbatim>\<open>|| ""\<close> turns into the empty string.
\<close>

definition read_chunk ::
  "byte list \<Rightarrow> decoder \<times> jsstring \<times> app_state \<Rightarrow> decoder \<times> jsstring \<times> app_state" where
  "read_chunk v = (\<lambda>(d, buf, s).
     (let (d', txt) = decode d v;
          parts = split (buf @ txt) nlnl;
          buf' = (if parts = [] then [] else last parts)
      in (d', buf', handle_segments (butlast parts) s)))"

text \<open>
  The loop over the reads.  It ends when a read returns \<open>done\<close> (the end of the list)
  or throws; nothing else leaves it.
\<close>

fun read_loop ::
  "read_result list \<Rightarrow> decoder \<times> jsstring \<times> app_state \<Rightarrow> js_error option \<times> app_state" where
  "read_loop [] (d, buf, s) = (None, s\<lparr>reads := reads s + 1\<rparr>)"
| "read_loop (ReadThrows e # rs) (d, buf, s) = (Some e, s\<lparr>reads := reads s + 1\<rparr>)"
| "read_loop (Chunk v # rs) (d, buf, s) =
     read_loop rs (read_chunk v (d, buf, s\<lparr>reads := reads s + 1\<rparr>))"

subsection \<open>The whole function\<close>

text \<open>
  Lines 102 to 109, between the initialisation and the stream request:
  \<^verbatim>\<open>
  clearBox(reasonBox); clearBox(answerBox);
  setStatus("...");
  if (sendBtn) sendBtn.disabled = true;
  controller = new AbortController();
  streaming = true;
  if (stopBtn) stopBtn.disabled = false;
  \<close>
\<close>

definition begin_stream :: "app_state \<Rightarrow> app_state" where
  "begin_stream s =
     (let s1 = setStatus status_connecting
                 (s\<lparr>reasonBox := clearBox (reasonBox s), answerBox := clearBox (answerBox s)\<rparr>)
      in s1\<lparr>sendBtn := set_disabled True (sendBtn s1),
             controller := Some (length (signals s1)),
             signals := signals s1 @ [False],
             streaming := True,
             stopBtn := set_disabled False (stopBtn s1)\<rparr>)"

text \<open>Lines 124 to 130, the branch for \<^verbatim>\<open>!res.ok || !res.body\<close>.\<close>

definition request_failed :: "nat \<Rightarrow> app_state \<Rightarrow> app_state" where
  "request_failed st s =
     (let s1 = setStatus (status_request_failed @ show_nat st) s
      in s1\<lparr>streaming := False,
             sendBtn := set_disabled False (sendBtn s1),
             stopBtn := set_disabled True (stopBtn s1)\<rparr>)"

text \<open>
  Lines 133 to 183: the reader, the loop inside \<open>try\<close>, the \<open>catch\<close> that reports the
  error while \<open>streaming\<close> is still set, and the \<open>finally\<close> block.
\<close>

definition consume_body :: "world \<Rightarrow> read_result list \<Rightarrow> app_state \<Rightarrow> app_state" where
  "consume_body w rs s =
     (let (err, s1) = read_loop rs (new_TextDecoder, [], setStatus status_streaming s);
          s2 = (case err of
                  None \<Rightarrow> s1
                | Some e \<Rightarrow>
                    if streaming s1 then setStatus (status_interrupted @ String_of_error e) s1
                    else s1);
          s3 = loadHistory w s2
      in s3\<lparr>streaming := False,
             sendBtn := set_disabled False (sendBtn s3),
             stopBtn := set_disabled True (stopBtn s3)\<rparr>)"

text \<open>
  \<open>startStream(userText, temperature, top_p)\<close>.  The arguments only travel in the body
  of the stream request.  An exception of \<open>initDialog\<close> or of the stream \<open>fetch\<close> is
  outside every \<open>try\<close> and leaves the function.  The test \<^verbatim>\<open>!res.ok || !res.body\<close> is
  the case on the body followed by the test of the status.
\<close>

definition startStream :: "world \<Rightarrow> app_state \<Rightarrow> js_error option \<times> app_state" where
  "startStream w s =
     (case (if dialogId s = [] then initDialog w s else (None, s)) of
        (Some e, s0) \<Rightarrow> (Some e, s0)
      | (None, s0) \<Rightarrow>
          (let s1 = fetch ChatStream (begin_stream s0)
           in case stream_reply w of
                StreamThrows e \<Rightarrow> (Some e, s1)
              | StreamResponse st body \<Rightarrow>
                  (case body of
                     None \<Rightarrow> (None, request_failed st s1)
                   | Some rs \<Rightarrow>
                       if \<not> http_ok st then (None, request_failed st s1)
                       else (None, consume_body w rs s1))))"

text \<open>
  The module right after loading (lines 10 to 12), on a page that has every element
  and nothing disabled.
\<close>

definition page_loaded :: app_state where
  "page_loaded =
     \<lparr>dialogId = [], controller = None, signals = [], streaming = False,
      statusEl = Some [], reasonBox = Some [], answerBox = Some [], historyBox = Some [],
      sendBtn = Some False, stopBtn = Some False, fetches = [], reads = 0, emitted = []\<rparr>"


section \<open>Framing\<close>

text \<open>
  A segment of the event stream is a block of lines that the server ends with a blank
  line.  The block is well framed when it holds no blank line of its own: no two
  newlines follow each other in it and it does not end with one.
\<close>

fun blank_line_in :: "'a::numeral list \<Rightarrow> bool" where
  "blank_line_in (a # b # cs) = ((a = 0x0A \<and> b = 0x0A) \<or> blank_line_in (b # cs))"
| "blank_line_in cs = False"

definition well_framed :: "jsstring \<Rightarrow> bool" where
  "well_framed seg = (\<not> blank_line_in (seg @ nl))"

text \<open>The text of a stream of segments, each followed by its blank line.\<close>

definition frame :: "jsstring list \<Rightarrow> jsstring" where
  "frame segs = concat (map (\<lambda>seg. seg @ nlnl) segs)"

text \<open>The same for the bytes of the body.\<close>

definition well_framed_bytes :: "byte list \<Rightarrow> bool" where
  "well_framed_bytes seg = (\<not> blank_line_in (seg @ [0x0A]))"

definition frame_bytes :: "byte list list \<Rightarrow> byte list" where
  "frame_bytes segs = concat (map (\<lambda>seg. seg @ [0x0A, 0x0A]) segs)"

text \<open>
  The number of blank-line separators that a scan from the left finds, in a list of
  bytes, of scalar values or of code units; the flag says that the element before was
  a newline that no separator has used yet.
\<close>

fun count_blank :: "bool \<Rightarrow> 'a::numeral list \<Rightarrow> nat" where
  "count_blank p [] = 0"
| "count_blank p (x # xs) =
     (if p \<and> x = 0x0A then Suc (count_blank False xs) else count_blank (x = 0x0A) xs)"

text \<open>
  The states that the UTF-8 decoder can be in: the initial one, or inside a sequence
  with a byte still to come, the boundaries those of a continuation byte and the code
  point so far neither zero (unless the next byte is forced to be at least 0x90) nor
  too large.
\<close>

definition utf8_ok :: "utf8_state \<Rightarrow> bool" where
  "utf8_ok u =
     (if bytes_needed u = 0 then u = utf8_init
      else bytes_seen u < bytes_needed u
         \<and> 0x80 \<le> lower_boundary u \<and> upper_boundary u \<le> 0xBF
         \<and> (code_point u + 1) * 64 ^ (bytes_needed u - bytes_seen u) \<le> 0x200000
         \<and> (1 \<le> code_point u \<or> (0x90 \<le> lower_boundary u \<and> bytes_seen u + 2 \<le> bytes_needed u)))"

section \<open>Properties of the string methods\<close>

lemma split_ne_nonempty: "split_ne sep s \<noteq> []"
  by (induction sep s rule: split_ne.induct) (auto split: list.splits)

lemma startsWith_length: "startsWith s p \<Longrightarrow> length p \<le> length s"
proof -
  assume "startsWith s p"
  then have "length (take (length p) s) = length p" by (simp add: startsWith_def)
  then show ?thesis by simp
qed

lemma split_ne_short: "length s < length sep \<Longrightarrow> split_ne sep s = [s]"
proof (induction s)
  case Nil
  then show ?case by simp
next
  case (Cons c cs)
  then have "\<not> startsWith (c # cs) sep"
    using startsWith_length by fastforce
  moreover from Cons have "split_ne sep cs = [cs]" by simp
  ultimately show ?case by simp
qed

lemma split_ne_single: "split_ne sep s = [r] \<Longrightarrow> r = s"
proof (induction sep s arbitrary: r rule: split_ne.induct)
  case (1 sep)
  then show ?case by simp
next
  case (2 sep c cs)
  show ?case
  proof (cases "sep \<noteq> [] \<and> startsWith (c # cs) sep")
    case True
    with "2.prems" show ?thesis by (simp add: split_ne_nonempty)
  next
    case False
    obtain p ps where pps: "split_ne sep cs = p # ps"
      using split_ne_nonempty by (cases "split_ne sep cs") auto
    with False "2.prems" have "ps = []" "r = c # p" by auto
    with pps "2.IH"(2) [OF False] show ?thesis by simp
  qed
qed

lemma startsWith_append: "startsWith s p \<Longrightarrow> startsWith (s @ t) p"
  unfolding startsWith_def
  by (metis append_eq_conv_conj append_take_drop_id append.assoc)

lemma split_ne_append:
  "sep \<noteq> [] \<Longrightarrow>
   split_ne sep (s @ t) = butlast (split_ne sep s) @ split_ne sep (last (split_ne sep s) @ t)"
proof (induction sep s rule: split_ne.induct)
  case (1 sep)
  then show ?case by simp
next
  case (2 sep c cs)
  let ?n = "length sep"
  show ?case
  proof (cases "startsWith (c # cs) sep")
    case True
    then have len: "?n \<le> length (c # cs)" by (rule startsWith_length)
    have st: "startsWith ((c # cs) @ t) sep" using True by (rule startsWith_append)
    have dr: "drop ?n ((c # cs) @ t) = drop ?n (c # cs) @ t" using len by (metis drop_append diff_is_0_eq drop_0)
    have ih: "split_ne sep (drop ?n (c # cs) @ t) =
        butlast (split_ne sep (drop ?n (c # cs))) @
        split_ne sep (last (split_ne sep (drop ?n (c # cs))) @ t)"
      using "2.IH"(1) "2.prems" True by simp
    have "split_ne sep ((c # cs) @ t) = [] # split_ne sep (drop ?n (c # cs) @ t)"
      using st "2.prems" dr by (metis append_Cons split_ne.simps(2))
    moreover have "split_ne sep (c # cs) = [] # split_ne sep (drop ?n (c # cs))"
      using True "2.prems" by simp
    ultimately show ?thesis
      using ih by (simp add: split_ne_nonempty)
  next
    case False
    obtain p ps where pps: "split_ne sep cs = p # ps"
      using split_ne_nonempty by (cases "split_ne sep cs") auto
    have whole: "split_ne sep (c # cs) = (c # p) # ps"
      using False pps by simp
    show ?thesis
    proof (cases "ps = []")
      case True
      with pps have "p = cs" using split_ne_single by blast
      with True whole show ?thesis by simp
    next
      case ne: False
      have "\<not> startsWith ((c # cs) @ t) sep"
      proof
        assume st: "startsWith ((c # cs) @ t) sep"
        have "length (c # cs) < ?n"
        proof (rule ccontr)
          assume "\<not> length (c # cs) < ?n"
          then have "?n \<le> length (c # cs)" by simp
          then have "take ?n ((c # cs) @ t) = take ?n (c # cs)"
            by (metis take_append diff_is_0_eq take_0 append_Nil2)
          with st False show False by (simp add: startsWith_def)
        qed
        then have "split_ne sep cs = [cs]" by (intro split_ne_short) simp
        with pps ne show False by simp
      qed
      then have "split_ne sep ((c # cs) @ t) =
          (case split_ne sep (cs @ t) of [] \<Rightarrow> [[c]] | q # qs \<Rightarrow> (c # q) # qs)"
        by simp
      moreover have "split_ne sep (cs @ t) =
          butlast (split_ne sep cs) @ split_ne sep (last (split_ne sep cs) @ t)"
        using "2.IH"(2) False "2.prems" by simp
      ultimately show ?thesis
        using pps ne whole by simp
    qed
  qed
qed

lemma split_nlnl: "split s nlnl = split_ne nlnl s"
  by (simp add: split_def nlnl_def)

lemma split_ne_last_idem:
  assumes "sep \<noteq> []"
  shows "split_ne sep (last (split_ne sep s)) = [last (split_ne sep s)]"
proof -
  let ?ps = "split_ne sep s"
  have "?ps = butlast ?ps @ split_ne sep (last ?ps)"
    using split_ne_append [OF assms, of s "[]"] by simp
  moreover have "?ps = butlast ?ps @ [last ?ps]"
    by (simp add: split_ne_nonempty)
  ultimately show ?thesis by (metis same_append_eq)
qed

lemma split_ne_framed:
  "well_framed seg \<Longrightarrow> split_ne nlnl (seg @ nlnl @ rest) = seg # split_ne nlnl rest"
proof (induction seg)
  case Nil
  show ?case by (simp add: nlnl_def startsWith_def)
next
  case (Cons c cs)
  from Cons.prems have wf: "well_framed cs"
    by (cases cs) (auto simp: well_framed_def nl_def)
  from Cons.prems have "\<not> (c = 0x0A \<and> hd (cs @ nlnl @ rest) = 0x0A)"
    by (cases cs) (auto simp: well_framed_def nl_def nlnl_def)
  then have "\<not> startsWith (c # cs @ nlnl @ rest) nlnl"
    by (cases "cs @ nlnl @ rest") (auto simp: startsWith_def nlnl_def)
  then show ?case
    using Cons.IH [OF wf] by simp
qed

lemma split_ne_frame:
  "\<forall>seg \<in> set segs. well_framed seg \<Longrightarrow> split_ne nlnl (frame segs) = segs @ [[]]"
proof (induction segs)
  case Nil
  show ?case by (simp add: frame_def)
next
  case (Cons seg segs)
  then have "split_ne nlnl (frame segs) = segs @ [[]]" by simp
  moreover have "frame (seg # segs) = seg @ nlnl @ frame segs"
    by (simp add: frame_def)
  ultimately show ?case
    using Cons.prems by (simp add: split_ne_framed)
qed

text \<open>\<open>show_nat\<close> writes the number in decimal: reading the digits back gives it.\<close>

lemma show_nat_digit: "d < 10 \<Longrightarrow> unat (of_nat (48 + d) :: code_unit) - 48 = d"
proof -
  assume d: "d < 10"
  define k where "k = 48 + d"
  have "unat (of_nat k :: code_unit) = k mod 65536" by (simp add: unat_of_nat)
  moreover have "k < 65536" using d by (simp add: k_def)
  ultimately have "unat (of_nat k :: code_unit) = k" by simp
  then show ?thesis by (simp add: k_def)
qed

lemma show_nat_value:
  "foldl (\<lambda>a c. 10 * a + (unat c - 48)) 0 (show_nat n) = n"
proof (induction n rule: show_nat.induct)
  case (1 n)
  show ?case
  proof (cases "n < 10")
    case True
    then show ?thesis using show_nat_digit [of n] by (subst show_nat.simps) simp
  next
    case False
    have "n mod 10 < 10" by simp
    then have d: "unat (of_nat (48 + n mod 10) :: code_unit) - 48 = n mod 10"
      by (rule show_nat_digit)
    have "show_nat n = show_nat (n div 10) @ [of_nat (48 + n mod 10)]"
      using False by (subst show_nat.simps) simp
    then show ?thesis
      using "1.IH" [OF False] d by simp
  qed
qed

section \<open>The decoder and the read loop over a chunked body\<close>

lemma utf8_run_append:
  "utf8_run u (a @ b) =
     (let (u1, o1) = utf8_run u a; (u2, o2) = utf8_run u1 b in (u2, o1 @ o2))"
  by (induction a arbitrary: u) (auto split: prod.splits)

lemma serialize_append:
  "serialize f (a @ b) =
     (let (f1, t1) = serialize f a; (f2, t2) = serialize f1 b in (f2, t1 @ t2))"
  by (induction a arbitrary: f) (auto split: prod.splits)

lemma decode_append:
  "decode d (a @ b) =
     (let (d1, t1) = decode d a; (d2, t2) = decode d1 b in (d2, t1 @ t2))"
  by (simp add: decode_def utf8_run_append serialize_append split: prod.splits)

lemma decode_Nil: "decode d [] = (d, [])"
  by (simp add: decode_def)

lemma handle_segment_reads:
  "handle_segment p (s\<lparr>reads := k\<rparr>) = (handle_segment p s)\<lparr>reads := k\<rparr>"
  by (simp add: handle_segment_def dispatch_def setStatus_def split: prod.splits)

lemma handle_segments_reads:
  "handle_segments ps (s\<lparr>reads := k\<rparr>) = (handle_segments ps s)\<lparr>reads := k\<rparr>"
  by (induction ps arbitrary: s) (simp_all add: handle_segment_reads)

lemma handle_segments_append:
  "handle_segments (ps @ qs) s = handle_segments qs (handle_segments ps s)"
  by (induction ps arbitrary: s) simp_all

lemma emitted_handle_segment:
  "emitted (handle_segment p s) = emitted s @ [parse_segment p]"
  by (simp add: handle_segment_def dispatch_def setStatus_def split: prod.splits)

lemma emitted_handle_segments:
  "emitted (handle_segments ps s) = emitted s @ map parse_segment ps"
  by (induction ps arbitrary: s) (simp_all add: emitted_handle_segment)

lemma reads_handle_segments: "reads (handle_segments ps s) = reads s"
proof -
  have "handle_segments ps s = handle_segments ps (s\<lparr>reads := reads s\<rparr>)" by simp
  also have "\<dots> = (handle_segments ps s)\<lparr>reads := reads s\<rparr>" by (rule handle_segments_reads)
  finally have "reads (handle_segments ps s) = reads ((handle_segments ps s)\<lparr>reads := reads s\<rparr>)"
    by simp
  then show ?thesis by simp
qed

lemma read_loop_chunks:
  "split_ne nlnl buf = [buf] \<Longrightarrow>
   read_loop (map Chunk cs) (d, buf, s) =
     (None, (handle_segments (butlast (split_ne nlnl (buf @ snd (decode d (concat cs))))) s)
              \<lparr>reads := reads s + length cs + 1\<rparr>)"
proof (induction cs arbitrary: d buf s)
  case Nil
  then show ?case by (simp add: decode_Nil)
next
  case (Cons c cs)
  obtain d' t1 where dec: "decode d c = (d', t1)" by (cases "decode d c")
  obtain d'' t2 where dec2: "decode d' (concat cs) = (d'', t2)" by (cases "decode d' (concat cs)")
  let ?parts = "split_ne nlnl (buf @ t1)"
  let ?s1 = "s\<lparr>reads := reads s + 1\<rparr>"
  have ne: "nlnl \<noteq> []" by (simp add: nlnl_def)
  have step: "read_chunk c (d, buf, ?s1) = (d', last ?parts, handle_segments (butlast ?parts) ?s1)"
    by (simp add: read_chunk_def dec split_nlnl split_ne_nonempty Let_def)
  have res: "split_ne nlnl (last ?parts) = [last ?parts]"
    by (rule split_ne_last_idem [OF ne])
  have all: "snd (decode d (c @ concat cs)) = t1 @ t2"
    by (simp add: decode_append dec dec2)
  have "split_ne nlnl ((buf @ t1) @ t2) = butlast ?parts @ split_ne nlnl (last ?parts @ t2)"
    by (rule split_ne_append [OF ne])
  then have bl: "butlast (split_ne nlnl (buf @ t1 @ t2)) =
      butlast ?parts @ butlast (split_ne nlnl (last ?parts @ t2))"
    by (simp add: butlast_append split_ne_nonempty)
  have "read_loop (map Chunk (c # cs)) (d, buf, s) =
      read_loop (map Chunk cs) (d', last ?parts, handle_segments (butlast ?parts) ?s1)"
    using step by simp
  also have "\<dots> = (None, (handle_segments (butlast (split_ne nlnl (last ?parts @ t2)))
        (handle_segments (butlast ?parts) ?s1))
          \<lparr>reads := reads (handle_segments (butlast ?parts) ?s1) + length cs + 1\<rparr>)"
    using Cons.IH [OF res] dec2 by simp
  finally show ?case
    by (simp add: all bl handle_segments_append handle_segments_reads reads_handle_segments)
qed

subsection \<open>trim and the lines of a segment\<close>

lemma trim_decomp:
  "s = takeWhile is_white s @ trim s @ rev (takeWhile is_white (rev (dropWhile is_white s)))"
proof -
  let ?m = "dropWhile is_white s"
  have "rev (dropWhile is_white (rev ?m)) @ rev (takeWhile is_white (rev ?m)) =
      rev (takeWhile is_white (rev ?m) @ dropWhile is_white (rev ?m))"
    by (simp only: rev_append)
  also have "\<dots> = rev (rev ?m)" by (simp only: takeWhile_dropWhile_id)
  finally have "?m = trim s @ rev (takeWhile is_white (rev ?m))"
    by (simp add: trim_def)
  moreover have "s = takeWhile is_white s @ ?m" by simp
  ultimately show ?thesis by metis
qed

lemma trim_ends:
  assumes "trim s \<noteq> []"
  shows "\<not> is_white (hd (trim s))" and "\<not> is_white (last (trim s))"
proof -
  let ?m = "dropWhile is_white s"
  let ?r = "dropWhile is_white (rev ?m)"
  have r: "?r \<noteq> []" using assms by (simp add: trim_def)
  have "last (trim s) = hd ?r" using r by (simp add: trim_def last_rev)
  then show "\<not> is_white (last (trim s))" using hd_dropWhile [OF r] by simp
  have m: "?m = trim s @ rev (takeWhile is_white (rev ?m))"
    using trim_decomp [of s] by (metis same_append_eq takeWhile_dropWhile_id)
  then have "?m \<noteq> []" using assms by (metis append_is_Nil_conv)
  then have "\<not> is_white (hd ?m)" by (rule hd_dropWhile)
  moreover have "hd ?m = hd (trim s)" using m assms by (metis hd_append2)
  ultimately show "\<not> is_white (hd (trim s))" by simp
qed

lemma trim_white: "\<forall>c \<in> set t. is_white c \<Longrightarrow> trim t = []"
  by (auto simp: trim_def dest: set_dropWhileD)

lemma event_not_data: "startsWith line (js ''event:'') \<Longrightarrow> \<not> startsWith line (js ''data:'')"
  by (cases line) (auto simp: startsWith_def js_def)

lemma scan_lines_data:
  "snd (scan_lines lines evt dl) =
     dl @ map (\<lambda>line. trim (slice_js line 5)) (filter (\<lambda>line. startsWith line (js ''data:'')) lines)"
  by (induction lines arbitrary: evt dl) (auto simp: event_not_data)

lemma scan_lines_event:
  "fst (scan_lines lines evt dl) =
     (let evs = filter (\<lambda>line. startsWith line (js ''event:'')) lines
      in if evs = [] then evt else trim (slice_js (last evs) 6))"
  by (induction lines arbitrary: evt dl) (auto simp: Let_def)

lemma parse_segment_data:
  "snd (parse_segment seg) =
     join (map (\<lambda>line. trim (slice_js line 5))
            (filter (\<lambda>line. startsWith line (js ''data:'')) (split seg nl))) nl"
proof -
  obtain e d where sc: "scan_lines (split seg nl) (js ''message'') [] = (e, d)"
    by (cases "scan_lines (split seg nl) (js ''message'') []")
  with scan_lines_data [of "split seg nl" "js ''message''" "[]"]
  show ?thesis by (simp add: parse_segment_def)
qed

lemma parse_segment_event:
  "fst (parse_segment seg) =
     (let evs = filter (\<lambda>line. startsWith line (js ''event:'')) (split seg nl)
      in if evs = [] then js ''message'' else trim (slice_js (last evs) 6))"
proof -
  obtain e d where sc: "scan_lines (split seg nl) (js ''message'') [] = (e, d)"
    by (cases "scan_lines (split seg nl) (js ''message'') []")
  with scan_lines_event [of "split seg nl" "js ''message''" "[]"]
  show ?thesis by (simp add: parse_segment_def)
qed

subsection \<open>What the read loop and the routing leave alone\<close>

lemma handle_segment_frame:
  "fetches (handle_segment p s) = fetches s"
  "signals (handle_segment p s) = signals s"
  "controller (handle_segment p s) = controller s"
  "dialogId (handle_segment p s) = dialogId s"
  "historyBox (handle_segment p s) = historyBox s"
  "reads (handle_segment p s) = reads s"
  by (simp_all add: handle_segment_def dispatch_def setStatus_def split: prod.splits)

lemma handle_segment_buttons:
  "set_disabled v (sendBtn (handle_segment p s)) = set_disabled v (sendBtn s)"
  "set_disabled v (stopBtn (handle_segment p s)) = set_disabled v (stopBtn s)"
  by (simp_all add: handle_segment_def dispatch_def setStatus_def set_disabled_def
      option.map_comp comp_def split: prod.splits)

lemma handle_segments_frame:
  "fetches (handle_segments ps s) = fetches s"
  "signals (handle_segments ps s) = signals s"
  "controller (handle_segments ps s) = controller s"
  "dialogId (handle_segments ps s) = dialogId s"
  "historyBox (handle_segments ps s) = historyBox s"
  by (induction ps arbitrary: s) (simp_all add: handle_segment_frame)

lemma handle_segments_buttons:
  "set_disabled v (sendBtn (handle_segments ps s)) = set_disabled v (sendBtn s)"
  "set_disabled v (stopBtn (handle_segments ps s)) = set_disabled v (stopBtn s)"
  by (induction ps arbitrary: s) (simp_all add: handle_segment_buttons)

lemma read_chunk_frame:
  "read_chunk v (d, buf, s) = (d', buf', s') \<Longrightarrow>
   fetches s' = fetches s \<and> signals s' = signals s \<and> controller s' = controller s
   \<and> dialogId s' = dialogId s \<and> historyBox s' = historyBox s
   \<and> set_disabled x (sendBtn s') = set_disabled x (sendBtn s)
   \<and> set_disabled y (stopBtn s') = set_disabled y (stopBtn s)"
  by (auto simp: read_chunk_def Let_def handle_segments_frame handle_segments_buttons
      split: prod.splits)

lemma read_loop_frame:
  "read_loop rs (d, buf, s) = (err, s') \<Longrightarrow>
   fetches s' = fetches s \<and> signals s' = signals s \<and> controller s' = controller s
   \<and> dialogId s' = dialogId s \<and> historyBox s' = historyBox s
   \<and> set_disabled x (sendBtn s') = set_disabled x (sendBtn s)
   \<and> set_disabled y (stopBtn s') = set_disabled y (stopBtn s)"
proof (induction rs "(d, buf, s)" arbitrary: d buf s rule: read_loop.induct)
  case (1 d buf s)
  then show ?case by auto
next
  case (2 e rs d buf s)
  then show ?case by auto
next
  case (3 v rs d buf s)
  obtain d1 buf1 s1 where rc: "read_chunk v (d, buf, s\<lparr>reads := reads s + 1\<rparr>) = (d1, buf1, s1)"
    by (cases "read_chunk v (d, buf, s\<lparr>reads := reads s + 1\<rparr>)") auto
  from "3.prems" rc have "read_loop rs (d1, buf1, s1) = (err, s')" by simp
  with "3.hyps" [OF rc] have
    "fetches s' = fetches s1 \<and> signals s' = signals s1 \<and> controller s' = controller s1
     \<and> dialogId s' = dialogId s1 \<and> historyBox s' = historyBox s1
     \<and> set_disabled x (sendBtn s') = set_disabled x (sendBtn s1)
     \<and> set_disabled y (stopBtn s') = set_disabled y (stopBtn s1)"
    by simp
  moreover from read_chunk_frame [OF rc, of x y] have
    "fetches s1 = fetches s \<and> signals s1 = signals s \<and> controller s1 = controller s
     \<and> dialogId s1 = dialogId s \<and> historyBox s1 = historyBox s
     \<and> set_disabled x (sendBtn s1) = set_disabled x (sendBtn s)
     \<and> set_disabled y (stopBtn s1) = set_disabled y (stopBtn s)"
    by simp
  ultimately show ?case by simp
qed

lemma consume_body_effect:
  "streaming (consume_body w rs s) = False"
  "sendBtn (consume_body w rs s) = set_disabled False (sendBtn s)"
  "stopBtn (consume_body w rs s) = set_disabled True (stopBtn s)"
  "fetches (consume_body w rs s) = fetches s @ [History]"
  "signals (consume_body w rs s) = signals s"
  "controller (consume_body w rs s) = controller s"
  "dialogId (consume_body w rs s) = dialogId s"
proof -
  let ?s0 = "setStatus status_streaming s"
  obtain err s1 where rl: "read_loop rs (new_TextDecoder, [], ?s0) = (err, s1)"
    by (cases "read_loop rs (new_TextDecoder, [], ?s0)")
  define s2 where "s2 = (case err of None \<Rightarrow> s1
     | Some e \<Rightarrow> if streaming s1 then setStatus (status_interrupted @ String_of_error e) s1
                else s1)"
  define s3 where "s3 = loadHistory w s2"
  have cb: "consume_body w rs s = s3\<lparr>streaming := False,
      sendBtn := set_disabled False (sendBtn s3), stopBtn := set_disabled True (stopBtn s3)\<rparr>"
    by (simp add: consume_body_def rl s2_def s3_def Let_def)
  have f0: "fetches ?s0 = fetches s" "signals ?s0 = signals s" "controller ?s0 = controller s"
    "dialogId ?s0 = dialogId s" "sendBtn ?s0 = sendBtn s" "stopBtn ?s0 = stopBtn s"
    by (simp_all add: setStatus_def)
  have f1: "fetches s1 = fetches s" "signals s1 = signals s" "controller s1 = controller s"
    "dialogId s1 = dialogId s"
    "set_disabled False (sendBtn s1) = set_disabled False (sendBtn s)"
    "set_disabled True (stopBtn s1) = set_disabled True (stopBtn s)"
    using read_loop_frame [OF rl, of False True] f0 by simp_all
  have f2: "fetches s2 = fetches s1" "signals s2 = signals s1" "controller s2 = controller s1"
    "dialogId s2 = dialogId s1" "sendBtn s2 = sendBtn s1" "stopBtn s2 = stopBtn s1"
    by (simp_all add: s2_def setStatus_def split: option.splits)
  have f3: "fetches s3 = fetches s2 @ [History]" "signals s3 = signals s2"
    "controller s3 = controller s2" "dialogId s3 = dialogId s2" "sendBtn s3 = sendBtn s2"
    "stopBtn s3 = stopBtn s2"
    by (simp_all add: s3_def loadHistory_def fetch_def Let_def split: option.splits)
  show "streaming (consume_body w rs s) = False" by (simp add: cb)
  show "sendBtn (consume_body w rs s) = set_disabled False (sendBtn s)"
    by (simp add: cb f1 f2 f3)
  show "stopBtn (consume_body w rs s) = set_disabled True (stopBtn s)"
    by (simp add: cb f1 f2 f3)
  show "fetches (consume_body w rs s) = fetches s @ [History]"
    by (simp add: cb f1 f2 f3)
  show "signals (consume_body w rs s) = signals s"
    by (simp add: cb f1 f2 f3)
  show "controller (consume_body w rs s) = controller s"
    by (simp add: cb f1 f2 f3)
  show "dialogId (consume_body w rs s) = dialogId s"
    by (simp add: cb f1 f2 f3)
qed

subsection \<open>The paths through startStream\<close>

lemma loadCards_frame:
  "dialogId (loadCards w s) = dialogId s" "signals (loadCards w s) = signals s"
  "controller (loadCards w s) = controller s" "streaming (loadCards w s) = streaming s"
  "statusEl (loadCards w s) = statusEl s" "reasonBox (loadCards w s) = reasonBox s"
  "answerBox (loadCards w s) = answerBox s" "sendBtn (loadCards w s) = sendBtn s"
  "stopBtn (loadCards w s) = stopBtn s" "reads (loadCards w s) = reads s"
  "emitted (loadCards w s) = emitted s"
  "fetches (loadCards w s) =
     fetches s @ (if cards_static_ok w then [CardsStatic] else [CardsStatic, CardsLocal])"
  by (simp_all add: loadCards_def fetch_def Let_def)

lemma initDialog_frame:
  "signals (snd (initDialog w s)) = signals s"
  "controller (snd (initDialog w s)) = controller s"
  "streaming (snd (initDialog w s)) = streaming s"
  "reasonBox (snd (initDialog w s)) = reasonBox s"
  "answerBox (snd (initDialog w s)) = answerBox s"
  "sendBtn (snd (initDialog w s)) = sendBtn s"
  "stopBtn (snd (initDialog w s)) = stopBtn s"
  "reads (snd (initDialog w s)) = reads s"
  "emitted (snd (initDialog w s)) = emitted s"
  "map_option (\<lambda>_. t) (statusEl (snd (initDialog w s))) = map_option (\<lambda>_. t) (statusEl s)"
  by (simp_all add: initDialog_def fetch_def Let_def loadCards_frame setStatus_def
      option.map_comp comp_def split: init_result.splits)

lemma begin_stream_effect:
  "reasonBox (begin_stream s) = clearBox (reasonBox s)"
  "answerBox (begin_stream s) = clearBox (answerBox s)"
  "statusEl (begin_stream s) = map_option (\<lambda>_. status_connecting) (statusEl s)"
  "sendBtn (begin_stream s) = set_disabled True (sendBtn s)"
  "stopBtn (begin_stream s) = set_disabled False (stopBtn s)"
  "controller (begin_stream s) = Some (length (signals s))"
  "signals (begin_stream s) = signals s @ [False]"
  "streaming (begin_stream s) = True"
  "dialogId (begin_stream s) = dialogId s"
  "fetches (begin_stream s) = fetches s"
  "reads (begin_stream s) = reads s"
  "emitted (begin_stream s) = emitted s"
  by (simp_all add: begin_stream_def setStatus_def Let_def)

lemma request_failed_effect:
  "statusEl (request_failed st s) = map_option (\<lambda>_. status_request_failed @ show_nat st) (statusEl s)"
  "streaming (request_failed st s) = False"
  "sendBtn (request_failed st s) = set_disabled False (sendBtn s)"
  "stopBtn (request_failed st s) = set_disabled True (stopBtn s)"
  "reasonBox (request_failed st s) = reasonBox s"
  "answerBox (request_failed st s) = answerBox s"
  "controller (request_failed st s) = controller s"
  "signals (request_failed st s) = signals s"
  "fetches (request_failed st s) = fetches s"
  "reads (request_failed st s) = reads s"
  "emitted (request_failed st s) = emitted s"
  by (simp_all add: request_failed_def setStatus_def Let_def)

lemma set_disabled_twice: "set_disabled v (set_disabled u b) = set_disabled v b"
  by (cases b) (simp_all add: set_disabled_def)

text \<open>The state in which the stream request is issued, once the dialog is there.\<close>

lemma startStream_response:
  assumes "dialogId s = [] \<longrightarrow> fst (initDialog w s) = None"
    and "stream_reply w = StreamResponse st body"
  shows "startStream w s =
     (let s0 = (if dialogId s = [] then snd (initDialog w s) else s);
          s1 = fetch ChatStream (begin_stream s0)
      in (None, case body of
                  None \<Rightarrow> request_failed st s1
                | Some rs \<Rightarrow> if \<not> http_ok st then request_failed st s1
                             else consume_body w rs s1))"
proof (cases "dialogId s = []")
  case True
  with assms(1) obtain s0 where "initDialog w s = (None, s0)"
    by (cases "initDialog w s") auto
  with True assms(2) show ?thesis
    by (simp add: startStream_def Let_def split: option.splits)
next
  case False
  with assms(2) show ?thesis
    by (simp add: startStream_def Let_def split: option.splits)
qed


lemma startStream_init_fails:
  assumes "dialogId s = []" and "initDialog w s = (Some e, s0)"
  shows "startStream w s = (Some e, s0)"
  using assms by (simp add: startStream_def)

subsection \<open>What a call writes to the two boxes\<close>











section \<open>Newlines through the decoder\<close>

lemma and_3F: "unat ((b::byte) AND 0x3F) = unat b mod 64"
proof -
  have "b AND 0x3F = take_bit 6 b"
    by (simp add: take_bit_eq_mask mask_eq_exp_minus_1)
  then show ?thesis by (simp add: take_bit_eq_mod unat_mod_distrib)
qed

lemma and_1F: "unat ((b::byte) AND 0x1F) = unat b mod 32"
proof -
  have "b AND 0x1F = take_bit 5 b"
    by (simp add: take_bit_eq_mask mask_eq_exp_minus_1)
  then show ?thesis by (simp add: take_bit_eq_mod unat_mod_distrib)
qed

lemma and_0F: "unat ((b::byte) AND 0x0F) = unat b mod 16"
proof -
  have "b AND 0x0F = take_bit 4 b"
    by (simp add: take_bit_eq_mask mask_eq_exp_minus_1)
  then show ?thesis by (simp add: take_bit_eq_mod unat_mod_distrib)
qed

lemma and_07: "unat ((b::byte) AND 0x07) = unat b mod 8"
proof -
  have "b AND 0x07 = take_bit 3 b"
    by (simp add: take_bit_eq_mask mask_eq_exp_minus_1)
  then show ?thesis by (simp add: take_bit_eq_mod unat_mod_distrib)
qed

lemma shift_or: "x < 64 \<Longrightarrow> push_bit 6 (c::nat) OR x = c * 64 + x"
proof -
  assume x: "x < 64"
  then have tx: "take_bit 6 x = x" by (simp add: take_bit_nat_eq_self)
  have "push_bit 6 c AND take_bit 6 x = 0"
    by (rule bit_eqI) (auto simp: bit_simps)
  then have "push_bit 6 c + take_bit 6 x = push_bit 6 c OR take_bit 6 x"
    by (rule disjunctive_add_eq_or)
  then show ?thesis by (simp add: tx push_bit_eq_mult)
qed

lemma utf8_handler_newline:
  assumes "utf8_ok u"
  shows "utf8_handler u 0x0A =
     (utf8_init, if bytes_needed u = 0 then [0x0A] else [0xFFFD, 0x0A])"
proof (cases "bytes_needed u = 0")
  case True
  with assms have "u = utf8_init" by (simp add: utf8_ok_def)
  then show ?thesis by (simp add: utf8_handler_def utf8_lead_def utf8_init_def)
next
  case False
  with assms have "0x80 \<le> lower_boundary u" by (simp add: utf8_ok_def)
  then have "\<not> lower_boundary u \<le> 0x0A"
    by (simp add: word_le_nat_alt)
  with False show ?thesis
    by (simp add: utf8_handler_def utf8_lead_def utf8_init_def)
qed

lemma utf8_lead_other:
  assumes "b \<noteq> 0x0A" and "utf8_lead utf8_init b = (u', out)"
  shows "utf8_ok u' \<and> (\<forall>c \<in> set out. c \<noteq> 0x0A \<and> c < 0x200000) \<and> (out = [] \<longrightarrow> bytes_needed u' \<noteq> 0)"
proof -
  have nb: "unat b \<noteq> 10" using assms(1) by (simp add: word_unat_eq_iff)
  have lt: "unat b < 256" using unsigned_less [of b, where ?'a = nat] by simp
  consider "b \<le> 0x7F" | "\<not> b \<le> 0x7F" "0xC2 \<le> b \<and> b \<le> 0xDF"
    | "\<not> b \<le> 0x7F" "\<not> (0xC2 \<le> b \<and> b \<le> 0xDF)" "0xE0 \<le> b \<and> b \<le> 0xEF"
    | "\<not> b \<le> 0x7F" "\<not> (0xC2 \<le> b \<and> b \<le> 0xDF)" "\<not> (0xE0 \<le> b \<and> b \<le> 0xEF)" "0xF0 \<le> b \<and> b \<le> 0xF4"
    | "\<not> b \<le> 0x7F" "\<not> (0xC2 \<le> b \<and> b \<le> 0xDF)" "\<not> (0xE0 \<le> b \<and> b \<le> 0xEF)" "\<not> (0xF0 \<le> b \<and> b \<le> 0xF4)"
    by blast
  then show ?thesis
  proof cases
    case 1
    have "utf8_lead utf8_init b = (utf8_init, [unat b])" by (simp add: utf8_lead_def 1)
    with assms(2) have "u' = utf8_init" "out = [unat b]" by simp_all
    with nb lt show ?thesis by (simp add: utf8_ok_def utf8_init_def)
  next
    case 2
    then have r: "194 \<le> unat b" "unat b \<le> 223" by (simp_all add: word_le_nat_alt)
    have "utf8_lead utf8_init b =
        (utf8_init\<lparr>bytes_needed := 1, code_point := unat b mod 32\<rparr>, [])"
      by (simp add: utf8_lead_def 2 and_1F)
    with assms(2) have u': "u' = utf8_init\<lparr>bytes_needed := 1, code_point := unat b mod 32\<rparr>" "out = []"
      by simp_all
    have "2 \<le> unat b mod 32" "unat b mod 32 < 32" using r by presburger+
    then show ?thesis by (simp add: u' utf8_ok_def utf8_init_def)
  next
    case 3
    then have r: "224 \<le> unat b" "unat b \<le> 239" by (simp_all add: word_le_nat_alt)
    have "utf8_lead utf8_init b = (utf8_init\<lparr>
           lower_boundary := (if b = 0xE0 then 0xA0 else 0x80),
           upper_boundary := (if b = 0xED then 0x9F else 0xBF),
           bytes_needed := 2, code_point := unat b mod 16\<rparr>, [])"
      by (simp add: utf8_lead_def 3 and_0F utf8_init_def)
    with assms(2) have u': "u' = utf8_init\<lparr>
           lower_boundary := (if b = 0xE0 then 0xA0 else 0x80),
           upper_boundary := (if b = 0xED then 0x9F else 0xBF),
           bytes_needed := 2, code_point := unat b mod 16\<rparr>" "out = []"
      by simp_all
    have m: "unat b mod 16 < 16" by simp
    have "b \<noteq> 0xE0 \<Longrightarrow> 1 \<le> unat b mod 16"
    proof -
      assume "b \<noteq> 0xE0"
      then have "unat b \<noteq> 224" by (simp add: word_unat_eq_iff)
      with r show ?thesis by presburger
    qed
    with m show ?thesis by (auto simp: u' utf8_ok_def utf8_init_def)
  next
    case 4
    then have r: "240 \<le> unat b" "unat b \<le> 244" by (simp_all add: word_le_nat_alt)
    have "utf8_lead utf8_init b = (utf8_init\<lparr>
           lower_boundary := (if b = 0xF0 then 0x90 else 0x80),
           upper_boundary := (if b = 0xF4 then 0x8F else 0xBF),
           bytes_needed := 3, code_point := unat b mod 8\<rparr>, [])"
      by (simp add: utf8_lead_def 4 and_07 utf8_init_def)
    with assms(2) have u': "u' = utf8_init\<lparr>
           lower_boundary := (if b = 0xF0 then 0x90 else 0x80),
           upper_boundary := (if b = 0xF4 then 0x8F else 0xBF),
           bytes_needed := 3, code_point := unat b mod 8\<rparr>" "out = []"
      by simp_all
    have m: "unat b mod 8 < 8" by simp
    have "b \<noteq> 0xF0 \<Longrightarrow> 1 \<le> unat b mod 8"
    proof -
      assume "b \<noteq> 0xF0"
      then have "unat b \<noteq> 240" by (simp add: word_unat_eq_iff)
      with r show ?thesis by presburger
    qed
    with m show ?thesis by (auto simp: u' utf8_ok_def utf8_init_def)
  next
    case 5
    have "utf8_lead utf8_init b = (utf8_init, [0xFFFD])" by (simp add: utf8_lead_def 5)
    with assms(2) have "u' = utf8_init" "out = [0xFFFD]" by simp_all
    then show ?thesis by (simp add: utf8_ok_def utf8_init_def)
  qed
qed


lemma power_step: "0 < k \<Longrightarrow> (c + 1) * 64 * 64 ^ (k - 1) = (c + 1) * (64::nat) ^ k"
  by (cases k) (simp_all add: algebra_simps)

lemma utf8_handler_other:
  assumes "utf8_ok u" and "b \<noteq> 0x0A" and "utf8_handler u b = (u', out)"
  shows "utf8_ok u' \<and> (\<forall>c \<in> set out. c \<noteq> 0x0A \<and> c < 0x200000)
    \<and> (out = [] \<longrightarrow> bytes_needed u' \<noteq> 0)"
proof (cases "bytes_needed u = 0")
  case True
  with assms(1) have "u = utf8_init" by (simp add: utf8_ok_def)
  with True assms(3) have "utf8_lead utf8_init b = (u', out)" by (simp add: utf8_handler_def)
  with assms(2) show ?thesis by (rule utf8_lead_other)
next
  case False
  with assms(1) have ok: "bytes_seen u < bytes_needed u" "0x80 \<le> lower_boundary u"
    "upper_boundary u \<le> 0xBF"
    "(code_point u + 1) * 64 ^ (bytes_needed u - bytes_seen u) \<le> 0x200000"
    "1 \<le> code_point u \<or> (0x90 \<le> lower_boundary u \<and> bytes_seen u + 2 \<le> bytes_needed u)"
    by (simp_all add: utf8_ok_def)
  show ?thesis
  proof (cases "lower_boundary u \<le> b \<and> b \<le> upper_boundary u")
    case out_of_range: False
    obtain u2 o2 where l: "utf8_lead utf8_init b = (u2, o2)" by (cases "utf8_lead utf8_init b")
    with False out_of_range assms(3) have "u' = u2" "out = 0xFFFD # o2"
      by (simp_all add: utf8_handler_def)
    with utf8_lead_other [OF assms(2) l] show ?thesis by simp
  next
    case in_range: True
    define x where "x = unat b mod 64"
    define cp where "cp = code_point u * 64 + x"
    define k where "k = bytes_needed u - bytes_seen u"
    have x: "x < 64" by (simp add: x_def)
    have k: "0 < k" using ok(1) by (simp add: k_def)
    have cpeq: "push_bit 6 (code_point u) OR unat (b AND 0x3F) = cp"
      using shift_or [OF x, of "code_point u"] by (simp add: and_3F x_def cp_def)
    have "cp + 1 \<le> (code_point u + 1) * 64" using x by (simp add: cp_def)
    then have "(cp + 1) * 64 ^ (k - 1) \<le> (code_point u + 1) * 64 * 64 ^ (k - 1)"
      by (rule mult_le_mono1)
    also have "\<dots> = (code_point u + 1) * 64 ^ k" using k by (rule power_step)
    finally have bound: "(cp + 1) * 64 ^ (k - 1) \<le> 0x200000" using ok(4) by (simp add: k_def)
    have pos: "1 \<le> cp"
    proof (cases "1 \<le> code_point u")
      case True
      then show ?thesis by (simp add: cp_def)
    next
      case False
      with ok(5) have "0x90 \<le> lower_boundary u" by simp
      with in_range have "0x90 \<le> b" by (metis order_trans)
      moreover from in_range ok(3) have "b \<le> 0xBF" by (metis order_trans)
      ultimately have "144 \<le> unat b" "unat b \<le> 191" by (simp_all add: word_le_nat_alt)
      then have "16 \<le> unat b mod 64" by presburger
      then show ?thesis by (simp add: cp_def x_def)
    qed
    show ?thesis
    proof (cases "bytes_seen u + 1 = bytes_needed u")
      case last: True
      have "utf8_handler u b = (utf8_init, [cp])"
        using False in_range last by (simp add: utf8_handler_def cpeq Let_def utf8_init_def)
      with assms(3) have r: "u' = utf8_init" "out = [cp]" by simp_all
      from last ok(5) have "1 \<le> code_point u" by simp
      then have "64 \<le> cp" by (simp add: cp_def)
      moreover from last have "k = 1" by (simp add: k_def)
      with bound have "cp < 0x200000" by simp
      ultimately show ?thesis by (simp add: r utf8_ok_def utf8_init_def)
    next
      case more: False
      let ?u1 = "u\<lparr>lower_boundary := 0x80, upper_boundary := 0xBF,
                    code_point := cp, bytes_seen := bytes_seen u + 1\<rparr>"
      have "utf8_handler u b = (?u1, [])"
        using False in_range more by (simp add: utf8_handler_def cpeq Let_def)
      with assms(3) have r: "u' = ?u1" "out = []" by simp_all
      have "bytes_needed u - (bytes_seen u + 1) = k - 1" by (simp add: k_def)
      with bound pos more ok(1) False show ?thesis
        by (simp add: r utf8_ok_def)
    qed
  qed
qed

lemma count_blank_skip:
  "out \<noteq> [] \<Longrightarrow> \<forall>c \<in> set out. c \<noteq> 0x0A \<Longrightarrow>
   count_blank p (out @ rest) = count_blank False rest"
proof (induction out arbitrary: p)
  case Nil
  then show ?case by simp
next
  case (Cons a out)
  show ?case
  proof (cases "out = []")
    case True
    with Cons.prems show ?thesis by simp
  next
    case False
    with Cons.prems have "count_blank False (out @ rest) = count_blank False rest"
      by (intro Cons.IH) simp_all
    with Cons.prems show ?thesis by simp
  qed
qed

lemma utf8_run_blank:
  "utf8_ok u \<Longrightarrow> utf8_run u bs = (u', cps) \<Longrightarrow>
   count_blank p cps = count_blank (p \<and> bytes_needed u = 0) bs
   \<and> (\<forall>c \<in> set cps. c < 0x200000)"
proof (induction bs arbitrary: u u' p cps)
  case Nil
  then show ?case by simp
next
  case (Cons b bs)
  obtain u1 out where h: "utf8_handler u b = (u1, out)" by (cases "utf8_handler u b")
  obtain u2 rest where r: "utf8_run u1 bs = (u2, rest)" by (cases "utf8_run u1 bs")
  from Cons.prems(2) h r have cps: "cps = out @ rest" by simp
  show ?case
  proof (cases "b = 0x0A")
    case True
    with utf8_handler_newline [OF Cons.prems(1)] h
    have u1: "u1 = utf8_init" and out: "out = (if bytes_needed u = 0 then [0x0A] else [0xFFFD, 0x0A])"
      by simp_all
    have ok1: "utf8_ok u1" by (simp add: u1 utf8_ok_def utf8_init_def)
    have n1: "bytes_needed u1 = 0" by (simp add: u1 utf8_init_def)
    from Cons.IH [OF ok1 r] n1
    have ih: "\<And>q. count_blank q rest = count_blank q bs" "\<forall>c \<in> set rest. c < 0x200000"
      by simp_all
    show ?thesis
      using True by (simp add: cps out ih)
  next
    case False
    from utf8_handler_other [OF Cons.prems(1) False h]
    have ok1: "utf8_ok u1" and o: "\<forall>c \<in> set out. c \<noteq> 0x0A \<and> c < 0x200000"
      and e: "out = [] \<longrightarrow> bytes_needed u1 \<noteq> 0"
      by simp_all
    from Cons.IH [OF ok1 r]
    have ih: "\<And>q. count_blank q rest = count_blank (q \<and> bytes_needed u1 = 0) bs"
      "\<forall>c \<in> set rest. c < 0x200000"
      by simp_all
    have "count_blank p (out @ rest) = count_blank False bs"
    proof (cases "out = []")
      case True
      with e ih(1) [of p] show ?thesis by simp
    next
      case ne: False
      with o have "count_blank p (out @ rest) = count_blank False rest"
        by (intro count_blank_skip) auto
      with ih(1) [of False] show ?thesis by simp
    qed
    with False o ih(2) show ?thesis by (auto simp: cps)
  qed
qed

lemma utf16_newline: "utf16 0x0A = [0x0A]"
  by (simp add: utf16_def)

lemma utf16_other:
  assumes "c \<noteq> 0x0A" and "c < 0x200000"
  shows "utf16 c \<noteq> [] \<and> (\<forall>x \<in> set (utf16 c). x \<noteq> 0x0A)"
proof (cases "c < 0x10000")
  case True
  then have "unat (of_nat c :: code_unit) = c" by (simp add: unat_of_nat)
  with assms(1) have "(of_nat c :: code_unit) \<noteq> 0x0A" by (auto simp: word_unat_eq_iff)
  with True show ?thesis by (simp add: utf16_def)
next
  case False
  define hi where "hi = 0xD800 + (c - 0x10000) div 0x400"
  define lo where "lo = 0xDC00 + (c - 0x10000) mod 0x400"
  have r: "hi < 65536" "lo < 65536" "10 < hi" "10 < lo"
    using assms(2) False by (simp_all add: hi_def lo_def)
  then have "unat (of_nat hi :: code_unit) = hi" "unat (of_nat lo :: code_unit) = lo"
    by (simp_all add: unat_of_nat)
  with r have "(of_nat hi :: code_unit) \<noteq> 0x0A" "(of_nat lo :: code_unit) \<noteq> 0x0A"
    by (auto simp: word_unat_eq_iff)
  moreover have "utf16 c = [of_nat hi, of_nat lo]"
    using False by (simp only: utf16_def hi_def lo_def if_False)
  ultimately show ?thesis by simp
qed

lemma serialize_blank:
  "\<forall>c \<in> set cps. c < 0x200000 \<Longrightarrow> seen \<or> \<not> p \<Longrightarrow>
   count_blank p (snd (serialize seen cps)) = count_blank p cps"
proof (induction cps arbitrary: seen p)
  case Nil
  then show ?case by simp
next
  case (Cons c cps)
  from Cons.prems(1) have b: "c < 0x200000" "\<forall>c \<in> set cps. c < 0x200000" by simp_all
  have ih: "\<And>q. count_blank q (snd (serialize True cps)) = count_blank q cps"
    using Cons.IH [OF b(2), of True] by simp
  obtain f rest where s: "serialize True cps = (f, rest)" by (cases "serialize True cps")
  have ih': "\<And>q. count_blank q rest = count_blank q cps" using ih s by simp
  show ?case
  proof (cases "\<not> seen \<and> c = 0xFEFF")
    case True
    with Cons.prems(2) have "\<not> p" by simp
    with True ih [of False] show ?thesis by simp
  next
    case False
    then have ser: "snd (serialize seen (c # cps)) = utf16 c @ rest"
      using s by auto
    have cb: "count_blank p (snd (serialize seen (c # cps))) = count_blank p (utf16 c @ rest)"
      by (simp only: ser)
    show ?thesis
    proof (cases "c = 0x0A")
      case True
      have "count_blank p (utf16 c @ rest) = count_blank p (0x0A # cps)"
        unfolding True utf16_newline by (simp add: ih')
      with True cb show ?thesis by simp
    next
      case ne: False
      from utf16_other [OF ne b(1)]
      have "count_blank p (utf16 c @ rest) = count_blank False rest"
        by (intro count_blank_skip) auto
      with ne cb show ?thesis by (simp add: ih')
    qed
  qed
qed

lemma decode_blank:
  "count_blank False (snd (decode new_TextDecoder bs)) = count_blank False bs"
proof -
  obtain u cps where r: "utf8_run utf8_init bs = (u, cps)" by (cases "utf8_run utf8_init bs")
  have ok: "utf8_ok utf8_init" by (simp add: utf8_ok_def utf8_init_def)
  from utf8_run_blank [OF ok r, of False]
  have a: "count_blank False cps = count_blank False bs" "\<forall>c \<in> set cps. c < 0x200000"
    by simp_all
  have "snd (decode new_TextDecoder bs) = snd (serialize False cps)"
    by (simp add: decode_def new_TextDecoder_def r split: prod.splits)
  with serialize_blank [OF a(2), of False False] a(1) show ?thesis by simp
qed

lemma length_split_ne_gen:
  "sep = nlnl \<Longrightarrow> length (split_ne sep s) = Suc (count_blank False s)"
proof (induction sep s rule: split_ne.induct)
  case (1 sep)
  show ?case by simp
next
  case (2 sep c cs)
  have ne: "sep \<noteq> []" using "2.prems" by (simp add: nlnl_def)
  show ?case
  proof (cases "startsWith (c # cs) sep")
    case True
    then obtain rest where cs: "c = 0x0A" "cs = 0x0A # rest"
      using "2.prems" by (cases cs) (auto simp: startsWith_def nlnl_def)
    have "length (split_ne sep (drop (length sep) (c # cs))) =
        Suc (count_blank False (drop (length sep) (c # cs)))"
      using "2.IH"(1) True ne "2.prems" by simp
    with True ne cs "2.prems" show ?thesis by (simp add: nlnl_def)
  next
    case False
    then have ih: "length (split_ne sep cs) = Suc (count_blank False cs)"
      using "2.IH"(2) "2.prems" by simp
    obtain q qs where q: "split_ne sep cs = q # qs"
      using split_ne_nonempty by (cases "split_ne sep cs") auto
    have "count_blank False (c # cs) = count_blank False cs"
    proof (cases cs)
      case Nil
      then show ?thesis by simp
    next
      case (Cons d ds)
      with False "2.prems" have "\<not> (c = 0x0A \<and> d = 0x0A)"
        by (auto simp: startsWith_def nlnl_def)
      with Cons show ?thesis by auto
    qed
    with False q ih show ?thesis by simp
  qed
qed

lemma length_split_ne: "length (split_ne nlnl s) = Suc (count_blank False s)"
  by (rule length_split_ne_gen) simp

lemma count_blank_framed:
  "\<not> blank_line_in (seg @ [0x0A]) \<Longrightarrow> (p \<longrightarrow> hd (seg @ [0x0A]) \<noteq> 0x0A) \<Longrightarrow>
   count_blank p (seg @ 0x0A # 0x0A # rest) = Suc (count_blank False rest)"
proof (induction seg arbitrary: p)
  case Nil
  then show ?case by simp
next
  case (Cons c cs)
  from Cons.prems(1) have a: "\<not> blank_line_in (cs @ [0x0A])"
    by (cases cs) auto
  from Cons.prems(1) have b: "c = 0x0A \<longrightarrow> hd (cs @ [0x0A]) \<noteq> 0x0A"
    by (cases cs) auto
  from Cons.prems(2) have "count_blank p ((c # cs) @ 0x0A # 0x0A # rest) =
      count_blank (c = 0x0A) (cs @ 0x0A # 0x0A # rest)"
    by auto
  with Cons.IH [OF a b] show ?case by simp
qed

lemma count_blank_frame_bytes:
  "\<forall>b \<in> set bsegs. well_framed_bytes b \<Longrightarrow> count_blank False (frame_bytes bsegs) = length bsegs"
proof (induction bsegs)
  case Nil
  show ?case by (simp add: frame_bytes_def)
next
  case (Cons b bsegs)
  then have "count_blank False (frame_bytes bsegs) = length bsegs" by simp
  moreover have "frame_bytes (b # bsegs) = b @ 0x0A # 0x0A # frame_bytes bsegs"
    by (simp add: frame_bytes_def)
  moreover have "\<not> blank_line_in (b @ [0x0A])"
    using Cons.prems by (simp add: well_framed_bytes_def)
  ultimately show ?case
    by (simp add: count_blank_framed)
qed

section \<open>The claims\<close>

text \<open>
  C1.  The events that the read loop hands to the routing chain do not depend on how
  the bytes of the body are cut into chunks: whatever the chunks, also when a cut falls
  inside an \<open>event:\<close> or \<open>data:\<close> line or inside a multi-byte character, the loop
  leaves the same state as when the whole body arrives as one chunk (only the number
  of reads differs).  When the bytes of the body are N well-framed segments, each
  followed by its blank line, the loop emits exactly N events; and when the body
  decodes to the text of N well-framed segments, the events are those of these
  segments, in their order.
\<close>

theorem chunking_invariant:
  "(snd (read_loop (map Chunk chunks) (new_TextDecoder, [], s)))\<lparr>reads := 0\<rparr> =
   (snd (read_loop [Chunk (concat chunks)] (new_TextDecoder, [], s)))\<lparr>reads := 0\<rparr>
   \<and> (concat chunks = frame_bytes bsegs \<and> (\<forall>b \<in> set bsegs. well_framed_bytes b) \<longrightarrow>
      length (emitted (snd (read_loop (map Chunk chunks) (new_TextDecoder, [], s)))) =
        length (emitted s) + length bsegs)
   \<and> (snd (decode new_TextDecoder (concat chunks)) = frame segs
        \<and> (\<forall>seg \<in> set segs. well_framed seg) \<longrightarrow>
      emitted (snd (read_loop (map Chunk chunks) (new_TextDecoder, [], s))) =
        emitted s @ map parse_segment segs)"
proof -
  let ?text = "snd (decode new_TextDecoder (concat chunks))"
  have e: "split_ne nlnl [] = [[]]" by simp
  have a: "read_loop (map Chunk chunks) (new_TextDecoder, [], s) =
     (None, (handle_segments (butlast (split_ne nlnl ?text)) s)
          \<lparr>reads := reads s + length chunks + 1\<rparr>)"
    using read_loop_chunks [OF e, of chunks new_TextDecoder s] by simp
  have b: "read_loop [Chunk (concat chunks)] (new_TextDecoder, [], s) =
     (None, (handle_segments (butlast (split_ne nlnl ?text)) s)
          \<lparr>reads := reads s + 2\<rparr>)"
    using read_loop_chunks [OF e, of "[concat chunks]" new_TextDecoder s] by simp
  have em: "emitted (snd (read_loop (map Chunk chunks) (new_TextDecoder, [], s))) =
      emitted s @ map parse_segment (butlast (split_ne nlnl ?text))"
    by (simp add: a emitted_handle_segments)
  have c: "emitted (snd (read_loop (map Chunk chunks) (new_TextDecoder, [], s))) =
        emitted s @ map parse_segment segs"
    if "?text = frame segs" and "\<forall>seg \<in> set segs. well_framed seg"
    using that by (simp add: em split_ne_frame)
  have d: "length (emitted (snd (read_loop (map Chunk chunks) (new_TextDecoder, [], s)))) =
        length (emitted s) + length bsegs"
    if "concat chunks = frame_bytes bsegs" and "\<forall>b \<in> set bsegs. well_framed_bytes b"
  proof -
    have "length (split_ne nlnl ?text) = Suc (count_blank False (concat chunks))"
      by (simp add: length_split_ne decode_blank)
    also have "\<dots> = Suc (length bsegs)"
      using that by (simp add: count_blank_frame_bytes)
    finally show ?thesis by (simp add: em)
  qed
  have a': "(snd (read_loop (map Chunk chunks) (new_TextDecoder, [], s)))\<lparr>reads := 0\<rparr> =
     (handle_segments (butlast (split_ne nlnl ?text)) s)\<lparr>reads := 0\<rparr>"
    by (subst a) simp
  have b': "(snd (read_loop [Chunk (concat chunks)] (new_TextDecoder, [], s)))\<lparr>reads := 0\<rparr> =
     (handle_segments (butlast (split_ne nlnl ?text)) s)\<lparr>reads := 0\<rparr>"
    by (subst b) simp
  show ?thesis
  proof (intro conjI impI)
    show "(snd (read_loop (map Chunk chunks) (new_TextDecoder, [], s)))\<lparr>reads := 0\<rparr> =
      (snd (read_loop [Chunk (concat chunks)] (new_TextDecoder, [], s)))\<lparr>reads := 0\<rparr>"
      by (simp only: a' b')
  next
    assume "concat chunks = frame_bytes bsegs \<and> (\<forall>b \<in> set bsegs. well_framed_bytes b)"
    then show "length (emitted (snd (read_loop (map Chunk chunks) (new_TextDecoder, [], s)))) =
        length (emitted s) + length bsegs"
      using d by blast
  next
    assume "?text = frame segs \<and> (\<forall>seg \<in> set segs. well_framed seg)"
    then show "emitted (snd (read_loop (map Chunk chunks) (new_TextDecoder, [], s))) =
        emitted s @ map parse_segment segs"
      using c by blast
  qed
qed

text \<open>
  An instance of C1: two segments in four chunks, cut inside the \<open>event:\<close> marker and
  twice around the bytes of the three-byte character U+4F60.
\<close>

theorem chunking_invariant_witness:
  "concat [bytes ''eve'', bytes ''nt: answer\<newline>data: '' @ [0xE4], [0xBD, 0xA0, 0x0A],
              [0x0A] @ bytes ''data: b\<newline>\<newline>''] =
     frame_bytes [bytes ''event: answer\<newline>data: '' @ [0xE4, 0xBD, 0xA0], bytes ''data: b'']
   \<and> well_framed_bytes (bytes ''event: answer\<newline>data: '' @ [0xE4, 0xBD, 0xA0])
   \<and> well_framed_bytes (bytes ''data: b'')
   \<and> snd (decode new_TextDecoder
      (concat [bytes ''eve'', bytes ''nt: answer\<newline>data: '' @ [0xE4], [0xBD, 0xA0, 0x0A],
              [0x0A] @ bytes ''data: b\<newline>\<newline>''])) =
     frame [js ''event: answer\<newline>data: '' @ [0x4F60], js ''data: b'']
   \<and> well_framed (js ''event: answer\<newline>data: '' @ [0x4F60]) \<and> well_framed (js ''data: b'')
   \<and> emitted (snd (read_loop (map Chunk [bytes ''eve'', bytes ''nt: answer\<newline>data: '' @ [0xE4], [0xBD, 0xA0, 0x0A],
              [0x0A] @ bytes ''data: b\<newline>\<newline>'']) (new_TextDecoder, [], page_loaded))) =
       [(js ''answer'', [0x4F60]), (js ''message'', js ''b'')]"
proof -
  let ?chunks = "[bytes ''eve'', bytes ''nt: answer\<newline>data: '' @ [0xE4], [0xBD, 0xA0, 0x0A],
              [0x0A] @ bytes ''data: b\<newline>\<newline>'']"
  let ?segs = "[js ''event: answer\<newline>data: '' @ [0x4F60], js ''data: b'']"
  have h0: "concat ?chunks =
      frame_bytes [bytes ''event: answer\<newline>data: '' @ [0xE4, 0xBD, 0xA0], bytes ''data: b'']"
    by (simp add: frame_bytes_def bytes_def)
  have w: "well_framed_bytes (bytes ''event: answer\<newline>data: '' @ [0xE4, 0xBD, 0xA0])"
    "well_framed_bytes (bytes ''data: b'')"
    by (simp_all add: well_framed_bytes_def bytes_def)
  have h1: "snd (decode new_TextDecoder (concat ?chunks)) = frame ?segs"
    by (simp add: decode_def new_TextDecoder_def utf8_init_def utf8_handler_def utf8_lead_def
        utf16_def bytes_def js_def frame_def nlnl_def)
  have h2: "\<forall>seg \<in> set ?segs. well_framed seg"
    by (simp add: well_framed_def js_def nl_def)
  have p: "map parse_segment ?segs = [(js ''answer'', [0x4F60]), (js ''message'', js ''b'')]"
    by (simp add: parse_segment_def split_def nl_def js_def startsWith_def slice_js_def trim_def
        is_white_def)
  have "emitted page_loaded = []" by (simp add: page_loaded_def)
  with chunking_invariant [of ?chunks page_loaded _ ?segs] h0 w h1 h2 p show ?thesis
    by simp
qed




text \<open>
  C3, as the code has it.  The claim that every end of \<open>startStream\<close> runs all three
  cleanup actions does not hold: on a response that is not a success the function
  returns from the branch of lines 124 to 130, which resets the buttons but makes no
  history request.
\<close>

theorem cleanup_counterexample:
  "fst (startStream
      \<lparr>cards_static_ok = True, cards_local_ok = True, init_reply = InitThrows (new_Error []),
       stream_reply = StreamResponse 500 (Some []),
       history_reply = Some (js ''[]''), stop_ok = True\<rparr>
      (page_loaded\<lparr>dialogId := js ''d1''\<rparr>)) = None
   \<and> fetches (snd (startStream
      \<lparr>cards_static_ok = True, cards_local_ok = True, init_reply = InitThrows (new_Error []),
       stream_reply = StreamResponse 500 (Some []),
       history_reply = Some (js ''[]''), stop_ok = True\<rparr>
      (page_loaded\<lparr>dialogId := js ''d1''\<rparr>))) = [ChatStream]
   \<and> History \<notin> set (fetches (snd (startStream
      \<lparr>cards_static_ok = True, cards_local_ok = True, init_reply = InitThrows (new_Error []),
       stream_reply = StreamResponse 500 (Some []),
       history_reply = Some (js ''[]''), stop_ok = True\<rparr>
      (page_loaded\<lparr>dialogId := js ''d1''\<rparr>))))"
  by (simp add: startStream_def begin_stream_def request_failed_def fetch_def setStatus_def
      clearBox_def set_disabled_def http_ok_def page_loaded_def js_def)

text \<open>
  When the stream \<open>fetch\<close> itself rejects, the exception leaves \<open>startStream\<close> from
  outside the \<open>try\<close>: the send button stays disabled, the stop button enabled and
  \<open>streaming\<close> set, and no history request is made.
\<close>

lemma stream_fetch_rejection_skips_cleanup:
  "startStream
      \<lparr>cards_static_ok = True, cards_local_ok = True, init_reply = InitThrows (new_Error []),
       stream_reply = StreamThrows (JsError (js ''TypeError'') (js ''Failed to fetch'')),
       history_reply = Some (js ''[]''), stop_ok = True\<rparr>
      (page_loaded\<lparr>dialogId := js ''d1''\<rparr>) =
   (Some (JsError (js ''TypeError'') (js ''Failed to fetch'')),
    page_loaded\<lparr>dialogId := js ''d1'', controller := Some 0, signals := [False],
      streaming := True, statusEl := Some status_connecting,
      sendBtn := Some True, fetches := [ChatStream]\<rparr>)"
  by (simp add: startStream_def begin_stream_def fetch_def setStatus_def
      clearBox_def set_disabled_def page_loaded_def js_def)

text \<open>
  C3, amended.  Whenever the stream request is answered by a response, \<open>startStream\<close>
  returns normally with \<open>streaming\<close> cleared, the send button enabled and the stop button
  disabled: after the end of the body, after a read that throws (a transport error or
  an abort), and after a response that is not a success.  A history request is made,
  as the last request of the call and whatever its outcome, exactly when the response
  was a success with a body, that is on the paths through the read loop.
\<close>

theorem cleanup_after_response:
  assumes "dialogId s = [] \<longrightarrow> fst (initDialog w s) = None"
    and "stream_reply w = StreamResponse st body"
  shows "fst (startStream w s) = None
    \<and> streaming (snd (startStream w s)) = False
    \<and> sendBtn (snd (startStream w s)) = set_disabled False (sendBtn s)
    \<and> stopBtn (snd (startStream w s)) = set_disabled True (stopBtn s)
    \<and> fetches (snd (startStream w s)) =
        fetches (if dialogId s = [] then snd (initDialog w s) else s) @
          (if http_ok st \<and> body \<noteq> None then [ChatStream, History] else [ChatStream])"
proof -
  let ?s0 = "if dialogId s = [] then snd (initDialog w s) else s"
  let ?s1 = "fetch ChatStream (begin_stream ?s0)"
  have s1: "sendBtn ?s1 = set_disabled True (sendBtn s)"
    "stopBtn ?s1 = set_disabled False (stopBtn s)"
    "fetches ?s1 = fetches ?s0 @ [ChatStream]"
    by (simp_all add: fetch_def begin_stream_effect initDialog_frame)
  show ?thesis
  proof (cases "http_ok st \<and> body \<noteq> None")
    case True
    then obtain rs where "body = Some rs" by auto
    with True have "startStream w s = (None, consume_body w rs ?s1)"
      using startStream_response [OF assms] by (simp add: Let_def)
    with True show ?thesis
      by (simp add: consume_body_effect s1 set_disabled_twice)
  next
    case False
    then have "startStream w s = (None, request_failed st ?s1)"
      using startStream_response [OF assms] by (auto simp: Let_def split: option.splits)
    with False show ?thesis
      by (simp add: request_failed_effect s1 set_disabled_twice)
  qed
qed

text \<open>
  An instance of the amended C3: the body gives one chunk and then the read throws;
  the history request fails as well.
\<close>

theorem cleanup_after_response_witness:
  "fst (startStream
      \<lparr>cards_static_ok = True, cards_local_ok = True, init_reply = InitThrows (new_Error []),
       stream_reply = StreamResponse 200
         (Some [Chunk (bytes ''event: meta\<newline>\<newline>''), ReadThrows (JsError (js ''TypeError'') (js ''network error''))]),
       history_reply = None, stop_ok = True\<rparr>
      (page_loaded\<lparr>dialogId := js ''d1''\<rparr>)) = None
   \<and> sendBtn (snd (startStream
      \<lparr>cards_static_ok = True, cards_local_ok = True, init_reply = InitThrows (new_Error []),
       stream_reply = StreamResponse 200
         (Some [Chunk (bytes ''event: meta\<newline>\<newline>''), ReadThrows (JsError (js ''TypeError'') (js ''network error''))]),
       history_reply = None, stop_ok = True\<rparr>
      (page_loaded\<lparr>dialogId := js ''d1''\<rparr>))) = Some False
   \<and> stopBtn (snd (startStream
      \<lparr>cards_static_ok = True, cards_local_ok = True, init_reply = InitThrows (new_Error []),
       stream_reply = StreamResponse 200
         (Some [Chunk (bytes ''event: meta\<newline>\<newline>''), ReadThrows (JsError (js ''TypeError'') (js ''network error''))]),
       history_reply = None, stop_ok = True\<rparr>
      (page_loaded\<lparr>dialogId := js ''d1''\<rparr>))) = Some True
   \<and> fetches (snd (startStream
      \<lparr>cards_static_ok = True, cards_local_ok = True, init_reply = InitThrows (new_Error []),
       stream_reply = StreamResponse 200
         (Some [Chunk (bytes ''event: meta\<newline>\<newline>''), ReadThrows (JsError (js ''TypeError'') (js ''network error''))]),
       history_reply = None, stop_ok = True\<rparr>
      (page_loaded\<lparr>dialogId := js ''d1''\<rparr>))) = [ChatStream, History]"
proof -
  let ?body = "Some [Chunk (bytes ''event: meta\<newline>\<newline>''),
      ReadThrows (JsError (js ''TypeError'') (js ''network error''))]"
  let ?w = "\<lparr>cards_static_ok = True, cards_local_ok = True, init_reply = InitThrows (new_Error []),
       stream_reply = StreamResponse 200 ?body, history_reply = None, stop_ok = True\<rparr>"
  let ?s = "page_loaded\<lparr>dialogId := js ''d1''\<rparr>"
  have a: "dialogId ?s = [] \<longrightarrow> fst (initDialog ?w ?s) = None" by (simp add: js_def)
  have b: "stream_reply ?w = StreamResponse 200 ?body" by simp
  note t = cleanup_after_response [OF a b]
  have 1: "fst (startStream ?w ?s) = None" using t by blast
  have 2: "sendBtn (snd (startStream ?w ?s)) = set_disabled False (sendBtn ?s)" using t by blast
  have 3: "stopBtn (snd (startStream ?w ?s)) = set_disabled True (stopBtn ?s)" using t by blast
  have 4: "fetches (snd (startStream ?w ?s)) =
        fetches (if dialogId ?s = [] then snd (initDialog ?w ?s) else ?s) @
          (if http_ok 200 \<and> ?body \<noteq> None then [ChatStream, History] else [ChatStream])"
    using t by blast
  show ?thesis
    unfolding 1 2 3 4
    by (simp add: set_disabled_def page_loaded_def http_ok_def js_def)
qed

text \<open>
  C4.  When the stream request is answered with a status outside 200..299, or with no
  body, \<open>startStream\<close> returns at once: the status shows the failure text followed by
  the decimal status code, \<open>streaming\<close> is cleared, no read is made and no segment is
  parsed or routed, so the two boxes stay as they were cleared.
\<close>

theorem non_success_response_is_not_parsed:
  assumes "dialogId s = [] \<longrightarrow> fst (initDialog w s) = None"
    and "stream_reply w = StreamResponse st body"
    and "\<not> http_ok st \<or> body = None"
  shows "fst (startStream w s) = None
    \<and> statusEl (snd (startStream w s)) =
        map_option (\<lambda>_. status_request_failed @ show_nat st) (statusEl s)
    \<and> streaming (snd (startStream w s)) = False
    \<and> reads (snd (startStream w s)) = reads s
    \<and> emitted (snd (startStream w s)) = emitted s
    \<and> reasonBox (snd (startStream w s)) = clearBox (reasonBox s)
    \<and> answerBox (snd (startStream w s)) = clearBox (answerBox s)
    \<and> last (fetches (snd (startStream w s))) = ChatStream"
proof -
  let ?s0 = "if dialogId s = [] then snd (initDialog w s) else s"
  let ?s1 = "fetch ChatStream (begin_stream ?s0)"
  have "startStream w s = (None, request_failed st ?s1)"
    using startStream_response [OF assms(1,2)] assms(3)
    by (auto simp: Let_def split: option.splits)
  moreover have "statusEl (request_failed st ?s1) =
      map_option (\<lambda>_. status_request_failed @ show_nat st) (statusEl s)"
    using initDialog_frame(10) [of "status_request_failed @ show_nat st" w s]
    by (simp add: request_failed_effect fetch_def begin_stream_effect option.map_comp comp_def)
  ultimately show ?thesis
    by (simp add: request_failed_effect fetch_def begin_stream_effect initDialog_frame)
qed

text \<open>
  An instance of C4: status 404 with a body that holds an answer event.  The status
  reads the failure text and \<open>404\<close>; the body is not read.
\<close>

theorem non_success_response_is_not_parsed_witness:
  "statusEl (snd (startStream
      \<lparr>cards_static_ok = True, cards_local_ok = True, init_reply = InitThrows (new_Error []),
       stream_reply = StreamResponse 404 (Some [Chunk (bytes ''event: answer\<newline>data: x\<newline>\<newline>'')]),
       history_reply = None, stop_ok = True\<rparr>
      (page_loaded\<lparr>dialogId := js ''d1''\<rparr>))) = Some (status_request_failed @ js ''404'')
   \<and> reads (snd (startStream
      \<lparr>cards_static_ok = True, cards_local_ok = True, init_reply = InitThrows (new_Error []),
       stream_reply = StreamResponse 404 (Some [Chunk (bytes ''event: answer\<newline>data: x\<newline>\<newline>'')]),
       history_reply = None, stop_ok = True\<rparr>
      (page_loaded\<lparr>dialogId := js ''d1''\<rparr>))) = 0
   \<and> answerBox (snd (startStream
      \<lparr>cards_static_ok = True, cards_local_ok = True, init_reply = InitThrows (new_Error []),
       stream_reply = StreamResponse 404 (Some [Chunk (bytes ''event: answer\<newline>data: x\<newline>\<newline>'')]),
       history_reply = None, stop_ok = True\<rparr>
      (page_loaded\<lparr>dialogId := js ''d1''\<rparr>))) = Some []"
proof -
  let ?w = "\<lparr>cards_static_ok = True, cards_local_ok = True, init_reply = InitThrows (new_Error []),
       stream_reply = StreamResponse 404 (Some [Chunk (bytes ''event: answer\<newline>data: x\<newline>\<newline>'')]),
       history_reply = None, stop_ok = True\<rparr>"
  let ?s = "page_loaded\<lparr>dialogId := js ''d1''\<rparr>"
  have a: "dialogId ?s = [] \<longrightarrow> fst (initDialog ?w ?s) = None" by (simp add: js_def)
  have b: "stream_reply ?w =
      StreamResponse 404 (Some [Chunk (bytes ''event: answer\<newline>data: x\<newline>\<newline>'')])"
    by simp
  have c: "\<not> http_ok 404 \<or> Some [Chunk (bytes ''event: answer\<newline>data: x\<newline>\<newline>'')] = None"
    by (simp add: http_ok_def)
  have n: "show_nat 404 = js ''404''"
    by (simp add: js_def)
  note t = non_success_response_is_not_parsed [OF a b c]
  have 1: "statusEl (snd (startStream ?w ?s)) =
      map_option (\<lambda>_. status_request_failed @ show_nat 404) (statusEl ?s)"
    using t by blast
  have 2: "reads (snd (startStream ?w ?s)) = reads ?s"
    using t by blast
  have 3: "answerBox (snd (startStream ?w ?s)) = clearBox (answerBox ?s)"
    using t by blast
  show ?thesis
    unfolding 1 2 3 n by (simp add: page_loaded_def clearBox_def)
qed

text \<open>
  C5.  With no dialog identifier yet and an initialisation answer whose \<open>ok\<close> is false
  and whose \<open>error\<close> is \<open>boom\<close>, \<open>startStream\<close> throws the \<open>Error\<close> with the message
  \<open>boom\<close>.  The only requests made are those for the cards and the one to
  \<^verbatim>\<open>/api/dialog/init\<close>; none goes to \<^verbatim>\<open>/api/chat/stream\<close>.
\<close>

theorem init_failure_boom:
  assumes "dialogId s = []"
    and "init_reply w = InitResponse st False (Some (js ''boom'')) did"
  shows "fst (startStream w s) = Some (new_Error (js ''boom''))
    \<and> message (new_Error (js ''boom'')) = js ''boom''
    \<and> fetches (snd (startStream w s)) =
        fetches s @ (if cards_static_ok w then [CardsStatic, DialogInit]
                     else [CardsStatic, CardsLocal, DialogInit])
    \<and> ChatStream \<notin> set (drop (length (fetches s)) (fetches (snd (startStream w s))))
    \<and> dialogId (snd (startStream w s)) = []
    \<and> streaming (snd (startStream w s)) = streaming s"
proof -
  have b: "js ''boom'' \<noteq> []" by (simp add: js_def)
  have "initDialog w s =
      (Some (new_Error (js ''boom'')), fetch DialogInit (loadCards w s))"
    using assms(2) b by (simp add: initDialog_def Let_def)
  then have "startStream w s =
      (Some (new_Error (js ''boom'')), fetch DialogInit (loadCards w s))"
    using assms(1) by (rule startStream_init_fails [rotated])
  then show ?thesis
    using assms(1) by (simp add: fetch_def loadCards_frame new_Error_def)
qed

text \<open>An instance of C5, on the freshly loaded page with the first cards request failing.\<close>

theorem init_failure_boom_witness:
  "startStream
      \<lparr>cards_static_ok = False, cards_local_ok = True,
       init_reply = InitResponse 200 False (Some (js ''boom'')) [],
       stream_reply = StreamResponse 200 (Some []),
       history_reply = None, stop_ok = True\<rparr> page_loaded =
   (Some (JsError (js ''Error'') (js ''boom'')),
    page_loaded\<lparr>fetches := [CardsStatic, CardsLocal, DialogInit]\<rparr>)"
proof -
  let ?w = "\<lparr>cards_static_ok = False, cards_local_ok = True,
       init_reply = InitResponse 200 False (Some (js ''boom'')) [],
       stream_reply = StreamResponse 200 (Some []),
       history_reply = None, stop_ok = True\<rparr>"
  have a: "dialogId page_loaded = []" by (simp add: page_loaded_def)
  have b: "init_reply ?w = InitResponse 200 False (Some (js ''boom'')) []" by simp
  have "fst (startStream ?w page_loaded) = Some (new_Error (js ''boom''))"
    using init_failure_boom [OF a b] by blast
  moreover have "snd (startStream ?w page_loaded) =
      page_loaded\<lparr>fetches := [CardsStatic, CardsLocal, DialogInit]\<rparr>"
    by (simp add: startStream_def initDialog_def loadCards_def fetch_def page_loaded_def
        http_ok_def js_def)
  ultimately show ?thesis
    by (simp add: prod_eq_iff new_Error_def)
qed

text \<open>
  C6.  The body \<^verbatim>\<open>event: reason\ndata: hello\\nworld\n\n\<close>, where the data line holds a
  backslash followed by \<open>n\<close>, arriving as one chunk: the loop emits the one event of kind
  \<open>reason\<close> whose data still holds the backslash and the \<open>n\<close>, and appends to the reason
  box the two lines \<open>hello\<close> and \<open>world\<close> with a real newline between them.  Nothing is
  written to the answer box or the status.
\<close>

theorem scenario_reason_hello_world:
  "read_loop [Chunk (bytes ''event: reason\<newline>data: hello'' @ 0x5C # 0x6E # bytes ''world\<newline>\<newline>'')]
      (new_TextDecoder, [], s) =
   (None, s\<lparr>reasonBox := appendText (reasonBox s) (js ''hello\<newline>world''),
             reads := reads s + 2,
             emitted := emitted s @ [(js ''reason'', js ''hello'' @ backslash_n @ js ''world'')]\<rparr>)"
proof -
  let ?input = "bytes ''event: reason\<newline>data: hello'' @ 0x5C # 0x6E # bytes ''world\<newline>\<newline>''"
  have d: "decode new_TextDecoder ?input =
      (\<lparr>utf8 = utf8_init, bom_seen = True\<rparr>,
       js ''event: reason\<newline>data: hello'' @ backslash_n @ js ''world\<newline>\<newline>'')"
    by (simp add: decode_def new_TextDecoder_def utf8_init_def utf8_handler_def utf8_lead_def
        utf16_def bytes_def js_def backslash_n_def)
  have sp: "split (js ''event: reason\<newline>data: hello'' @ backslash_n @ js ''world\<newline>\<newline>'') nlnl =
      [js ''event: reason\<newline>data: hello'' @ backslash_n @ js ''world'', []]"
    by (simp add: split_def nlnl_def js_def backslash_n_def startsWith_def)
  have p: "parse_segment (js ''event: reason\<newline>data: hello'' @ backslash_n @ js ''world'') =
      (js ''reason'', js ''hello'' @ backslash_n @ js ''world'')"
    by (simp add: parse_segment_def split_def nl_def js_def backslash_n_def startsWith_def
        slice_js_def trim_def is_white_def)
  have r: "replaceAll (js ''hello'' @ backslash_n @ js ''world'') backslash_n nl = js ''hello\<newline>world''"
    by (simp add: js_def backslash_n_def nl_def startsWith_def)
  have k: "js ''reason'' \<noteq> js ''meta''" by (simp add: js_def)
  show ?thesis
    by (simp add: read_chunk_def d sp handle_segment_def p dispatch_def r k)
qed

text \<open>An instance of C6: on the freshly loaded page the reason box ends as the two lines.\<close>

theorem scenario_reason_hello_world_witness:
  "reasonBox (snd (read_loop
      [Chunk (bytes ''event: reason\<newline>data: hello'' @ 0x5C # 0x6E # bytes ''world\<newline>\<newline>'')]
      (new_TextDecoder, [], page_loaded))) = Some (js ''hello'' @ [0x0A] @ js ''world'')
   \<and> answerBox (snd (read_loop
      [Chunk (bytes ''event: reason\<newline>data: hello'' @ 0x5C # 0x6E # bytes ''world\<newline>\<newline>'')]
      (new_TextDecoder, [], page_loaded))) = Some []"
  unfolding scenario_reason_hello_world [of page_loaded]
  by (simp add: appendText_def page_loaded_def js_def)

text \<open>
  C7.  The routing of a \<open>done\<close> event sets the status to the completed text, clears
  \<open>streaming\<close> and resets the two buttons.  It does not leave the loop: over a body of
  any chunks the loop reads every chunk and then the end of the body, and it handles
  every completed segment of the whole body, whatever events came before; the segments
  after any segment, a \<open>done\<close> one included, are handled on the state that one left.
\<close>

theorem done_does_not_end_the_loop:
  "dispatch (js ''done'') data s =
     s\<lparr>streaming := False,
       statusEl := map_option (\<lambda>_. status_done) (statusEl s),
       sendBtn := map_option (\<lambda>_. False) (sendBtn s),
       stopBtn := map_option (\<lambda>_. True) (stopBtn s)\<rparr>
   \<and> read_loop (map Chunk chunks) (new_TextDecoder, [], s) =
       (None, (handle_segments
                 (butlast (split (snd (decode new_TextDecoder (concat chunks))) nlnl)) s)
                \<lparr>reads := reads s + length chunks + 1\<rparr>)
   \<and> handle_segments (before @ seg # after) s =
       handle_segments after (handle_segment seg (handle_segments before s))"
proof (intro conjI)
  show "dispatch (js ''done'') data s =
     s\<lparr>streaming := False,
       statusEl := map_option (\<lambda>_. status_done) (statusEl s),
       sendBtn := map_option (\<lambda>_. False) (sendBtn s),
       stopBtn := map_option (\<lambda>_. True) (stopBtn s)\<rparr>"
    by (simp add: dispatch_def setStatus_def set_disabled_def js_def)
next
  have e: "split_ne nlnl [] = [[]]" by simp
  show "read_loop (map Chunk chunks) (new_TextDecoder, [], s) =
       (None, (handle_segments
                 (butlast (split (snd (decode new_TextDecoder (concat chunks))) nlnl)) s)
                \<lparr>reads := reads s + length chunks + 1\<rparr>)"
    using read_loop_chunks [OF e, of chunks new_TextDecoder s] by (simp add: split_nlnl)
next
  show "handle_segments (before @ seg # after) s =
       handle_segments after (handle_segment seg (handle_segments before s))"
    by (simp add: handle_segments_append)
qed

text \<open>
  An instance of C7: a \<open>done\<close> segment followed, partly in a later chunk, by an \<open>answer\<close>
  segment.  All three reads happen and the late answer reaches the answer box.
\<close>

theorem done_does_not_end_the_loop_witness:
  "read_loop (map Chunk [bytes ''event: done\<newline>\<newline>event: ans'', bytes ''wer\<newline>data: late\<newline>\<newline>''])
      (new_TextDecoder, [], page_loaded\<lparr>streaming := True\<rparr>) =
   (None, page_loaded\<lparr>statusEl := Some status_done, answerBox := Some (js ''late''),
            stopBtn := Some True, reads := 3,
            emitted := [(js ''done'', []), (js ''answer'', js ''late'')]\<rparr>)"
proof -
  let ?chunks = "[bytes ''event: done\<newline>\<newline>event: ans'', bytes ''wer\<newline>data: late\<newline>\<newline>'']"
  have d: "snd (decode new_TextDecoder (concat ?chunks)) =
      js ''event: done\<newline>\<newline>event: answer\<newline>data: late\<newline>\<newline>''"
    by (simp add: decode_def new_TextDecoder_def utf8_init_def utf8_handler_def utf8_lead_def
        utf16_def bytes_def js_def)
  have sp: "split (js ''event: done\<newline>\<newline>event: answer\<newline>data: late\<newline>\<newline>'') nlnl =
      [js ''event: done'', js ''event: answer\<newline>data: late'', []]"
    by (simp add: split_def nlnl_def js_def startsWith_def)
  have p1: "parse_segment (js ''event: done'') = (js ''done'', [])"
    by (simp add: parse_segment_def split_def nl_def js_def startsWith_def
        slice_js_def trim_def is_white_def)
  have p2: "parse_segment (js ''event: answer\<newline>data: late'') = (js ''answer'', js ''late'')"
    by (simp add: parse_segment_def split_def nl_def js_def startsWith_def
        slice_js_def trim_def is_white_def)
  have r: "replaceAll (js ''late'') backslash_n nl = js ''late''"
    by (simp add: js_def backslash_n_def nl_def startsWith_def)
  have k: "js ''answer'' \<noteq> js ''meta''" "js ''answer'' \<noteq> js ''reason''"
    by (simp_all add: js_def)
  have "read_loop (map Chunk ?chunks) (new_TextDecoder, [], page_loaded\<lparr>streaming := True\<rparr>) =
       (None, (handle_segments
                 (butlast (split (snd (decode new_TextDecoder (concat ?chunks))) nlnl))
                 (page_loaded\<lparr>streaming := True\<rparr>))
                \<lparr>reads := reads (page_loaded\<lparr>streaming := True\<rparr>) + length ?chunks + 1\<rparr>)"
    using done_does_not_end_the_loop [of "[]" "page_loaded\<lparr>streaming := True\<rparr>" ?chunks]
    by blast
  also have "\<dots> = (None, page_loaded\<lparr>statusEl := Some status_done, answerBox := Some (js ''late''),
            stopBtn := Some True, reads := 3,
            emitted := [(js ''done'', []), (js ''answer'', js ''late'')]\<rparr>)"
    unfolding d sp
    by (simp add: handle_segment_def p1 p2 r k
        done_does_not_end_the_loop [THEN conjunct1]
        dispatch_def [of "js ''answer''"] appendText_def page_loaded_def)
  finally show ?thesis .
qed

text \<open>
  C8, as the code has it.  \<open>stopStream\<close> is not without effect when no stream is
  active.  After a stream that has ended (\<open>streaming\<close> cleared, the controller still
  token 0, the status the completed text) it signals that token, posts the stop
  notification, overwrites the status and enables the send button.
\<close>

theorem stopStream_idle_counterexample:
  "\<not> streaming (page_loaded\<lparr>dialogId := js ''d1'', controller := Some 0, signals := [False],
          statusEl := Some status_done, sendBtn := Some True, stopBtn := Some True\<rparr>)
   \<and> stopStream
      \<lparr>cards_static_ok = True, cards_local_ok = True, init_reply = InitThrows (new_Error []),
       stream_reply = StreamThrows (new_Error []), history_reply = None, stop_ok = True\<rparr>
      (page_loaded\<lparr>dialogId := js ''d1'', controller := Some 0, signals := [False],
          statusEl := Some status_done, sendBtn := Some True, stopBtn := Some True\<rparr>) =
     (None, page_loaded\<lparr>dialogId := js ''d1'', controller := Some 0, signals := [True],
          statusEl := Some status_stopped, sendBtn := Some False, stopBtn := Some True,
          fetches := [ChatStop]\<rparr>)
   \<and> snd (stopStream
      \<lparr>cards_static_ok = True, cards_local_ok = True, init_reply = InitThrows (new_Error []),
       stream_reply = StreamThrows (new_Error []), history_reply = None, stop_ok = True\<rparr>
      (page_loaded\<lparr>dialogId := js ''d1'', controller := Some 0, signals := [False],
          statusEl := Some status_done, sendBtn := Some True, stopBtn := Some True\<rparr>)) \<noteq>
     page_loaded\<lparr>dialogId := js ''d1'', controller := Some 0, signals := [False],
          statusEl := Some status_done, sendBtn := Some True, stopBtn := Some True\<rparr>"
  by (simp add: stopStream_def abort_def fetch_def setStatus_def set_disabled_def
      page_loaded_def status_done_def status_stopped_def)

text \<open>
  C8, amended.  \<open>stopStream\<close> called while no stream is active does not throw, and it
  leaves the dialog identifier, the two boxes, the history box, the controller variable
  and the cleared \<open>streaming\<close> flag as they were.  It is not a no-op: it signals the
  token that the controller variable still holds, if any, posts the stop notification,
  sets the status to the stopped text, enables the send button and disables the stop
  button.  These are all its effects.
\<close>

theorem stopStream_without_active_stream:
  assumes "\<not> streaming s"
  shows "stopStream w s =
    (None, s\<lparr>signals := (case controller s of None \<Rightarrow> signals s
                          | Some i \<Rightarrow> (signals s)[i := True]),
             statusEl := map_option (\<lambda>_. status_stopped) (statusEl s),
             sendBtn := map_option (\<lambda>_. False) (sendBtn s),
             stopBtn := map_option (\<lambda>_. True) (stopBtn s),
             fetches := fetches s @ [ChatStop]\<rparr>)"
  using assms
  by (cases "controller s")
    (simp_all add: stopStream_def Let_def abort_def fetch_def setStatus_def set_disabled_def)

text \<open>
  An instance of the amended C8: \<open>stopStream\<close> after a stream that has ended, with text
  in both boxes.
\<close>

theorem stopStream_without_active_stream_witness:
  "stopStream
      \<lparr>cards_static_ok = True, cards_local_ok = True, init_reply = InitThrows (new_Error []),
       stream_reply = StreamThrows (new_Error []), history_reply = None, stop_ok = False\<rparr>
      (page_loaded\<lparr>dialogId := js ''d1'', controller := Some 0, signals := [False],
          statusEl := Some status_done, reasonBox := Some (js ''r''), answerBox := Some (js ''a''),
          stopBtn := Some True\<rparr>) =
   (None, page_loaded\<lparr>dialogId := js ''d1'', controller := Some 0, signals := [True],
          statusEl := Some status_stopped, reasonBox := Some (js ''r''),
          answerBox := Some (js ''a''), stopBtn := Some True, fetches := [ChatStop]\<rparr>)"
proof -
  let ?w = "\<lparr>cards_static_ok = True, cards_local_ok = True, init_reply = InitThrows (new_Error []),
       stream_reply = StreamThrows (new_Error []), history_reply = None, stop_ok = False\<rparr>"
  let ?s = "page_loaded\<lparr>dialogId := js ''d1'', controller := Some 0, signals := [False],
          statusEl := Some status_done, reasonBox := Some (js ''r''), answerBox := Some (js ''a''),
          stopBtn := Some True\<rparr>"
  have a: "\<not> streaming ?s" by (simp add: page_loaded_def)
  show ?thesis
    unfolding stopStream_without_active_stream [OF a, of ?w]
    by (simp add: page_loaded_def)
qed

text \<open>
  C9.  The data of a segment is its \<open>data:\<close> lines, each cut after the marker and
  trimmed, joined by newlines.  Trimming takes away a run of white space at the front
  and one at the back and nothing else; what is left neither begins nor ends with white
  space, so no indentation of a data line reaches the payload; and a line that has only
  white space after the marker contributes the empty text.
\<close>

theorem data_lines_trimmed:
  "snd (parse_segment seg) =
     join (map (\<lambda>line. trim (slice_js line 5))
            (filter (\<lambda>line. startsWith line (js ''data:'')) (split seg nl))) nl
   \<and> (\<exists>a b. t = a @ trim t @ b \<and> (\<forall>c \<in> set a. is_white c) \<and> (\<forall>c \<in> set b. is_white c))
   \<and> (trim t \<noteq> [] \<longrightarrow> \<not> is_white (hd (trim t)) \<and> \<not> is_white (last (trim t)))
   \<and> ((\<forall>c \<in> set t. is_white c) \<longrightarrow> trim t = [])"
proof (intro conjI impI)
  show "snd (parse_segment seg) =
     join (map (\<lambda>line. trim (slice_js line 5))
            (filter (\<lambda>line. startsWith line (js ''data:'')) (split seg nl))) nl"
    by (rule parse_segment_data)
next
  let ?a = "takeWhile is_white t"
  let ?b = "rev (takeWhile is_white (rev (dropWhile is_white t)))"
  have "t = ?a @ trim t @ ?b" by (rule trim_decomp)
  moreover have "\<forall>c \<in> set ?a. is_white c" by (metis set_takeWhileD)
  moreover have "\<forall>c \<in> set ?b. is_white c" by (metis set_rev set_takeWhileD)
  ultimately show "\<exists>a b. t = a @ trim t @ b \<and> (\<forall>c \<in> set a. is_white c) \<and> (\<forall>c \<in> set b. is_white c)"
    by blast
next
  assume "trim t \<noteq> []"
  then show "\<not> is_white (hd (trim t))" by (rule trim_ends)
next
  assume "trim t \<noteq> []"
  then show "\<not> is_white (last (trim t))" by (rule trim_ends)
next
  assume "\<forall>c \<in> set t. is_white c"
  then show "trim t = []" by (rule trim_white)
qed

text \<open>
  An instance of C9: a data line of spaces only, and one indented by four spaces that
  ends with two spaces and a tab.
\<close>

theorem data_lines_trimmed_witness:
  "snd (parse_segment (js ''data:   \<newline>data:    x y  '' @ [0x09])) = js ''\<newline>x y''
   \<and> is_white 0x20 \<and> trim (js ''   '') = []
   \<and> trim (js ''    x y  '' @ [0x09]) = js ''x y''
   \<and> \<not> is_white (hd (trim (js ''    x y  '' @ [0x09])))
   \<and> \<not> is_white (last (trim (js ''    x y  '' @ [0x09])))"
proof -
  have w: "\<forall>c \<in> set (js ''   ''). is_white c"
    by (simp add: js_def is_white_def)
  have t: "trim (js ''    x y  '' @ [0x09]) = js ''x y''"
    by (simp add: trim_def js_def is_white_def)
  have ne: "trim (js ''    x y  '' @ [0x09]) \<noteq> []"
    using t by (simp add: js_def)
  have l: "map (\<lambda>line. trim (slice_js line 5))
            (filter (\<lambda>line. startsWith line (js ''data:''))
               (split (js ''data:   \<newline>data:    x y  '' @ [0x09]) nl)) = [[], js ''x y'']"
    by (simp add: split_def nl_def js_def startsWith_def slice_js_def trim_def is_white_def)
  have "is_white 0x20" by (simp add: is_white_def)
  moreover note data_lines_trimmed [of "js ''data:   \<newline>data:    x y  '' @ [0x09]" "js ''   ''"]
    data_lines_trimmed [of "[]" "js ''    x y  '' @ [0x09]"]
  ultimately show ?thesis
    using w t ne l by (simp add: nl_def js_def)
qed

text \<open>
  C10.  When a segment has lines that begin with \<open>event:\<close> (one, or more than one),
  the kind of its event is the trimmed text after the marker of the last of them, and
  the routing chain is entered with that kind: the earlier ones have no effect.
\<close>

theorem last_event_line_wins:
  "evs = filter (\<lambda>line. startsWith line (js ''event:'')) (split seg nl) \<Longrightarrow> evs \<noteq> [] \<Longrightarrow>
   fst (parse_segment seg) = trim (slice_js (last evs) 6)
   \<and> handle_segment seg s =
       dispatch (trim (slice_js (last evs) 6)) (snd (parse_segment seg))
         (s\<lparr>emitted := emitted s @ [(trim (slice_js (last evs) 6), snd (parse_segment seg))]\<rparr>)"
proof -
  assume a: "evs = filter (\<lambda>line. startsWith line (js ''event:'')) (split seg nl)" "evs \<noteq> []"
  then have f: "fst (parse_segment seg) = trim (slice_js (last evs) 6)"
    by (simp add: parse_segment_event)
  obtain e d where ps: "parse_segment seg = (e, d)" by (cases "parse_segment seg")
  with f show ?thesis
    by (simp add: handle_segment_def)
qed

text \<open>
  An instance of C10: \<open>event: reason\<close> followed by \<open>event:  answer\<close> routes the data to
  the answer box and leaves the reason box alone.
\<close>

theorem last_event_line_wins_witness:
  "filter (\<lambda>line. startsWith line (js ''event:''))
      (split (js ''event: reason\<newline>data: x\<newline>event:  answer '') nl) =
     [js ''event: reason'', js ''event:  answer '']
   \<and> fst (parse_segment (js ''event: reason\<newline>data: x\<newline>event:  answer '')) = js ''answer''
   \<and> answerBox (handle_segment (js ''event: reason\<newline>data: x\<newline>event:  answer '') page_loaded)
        = Some (js ''x'')
   \<and> reasonBox (handle_segment (js ''event: reason\<newline>data: x\<newline>event:  answer '') page_loaded)
        = Some []"
proof -
  let ?seg = "js ''event: reason\<newline>data: x\<newline>event:  answer ''"
  let ?evs = "[js ''event: reason'', js ''event:  answer '']"
  have e: "?evs = filter (\<lambda>line. startsWith line (js ''event:'')) (split ?seg nl)"
    by (simp add: split_def nl_def js_def startsWith_def)
  have n: "?evs \<noteq> []" by simp
  have t: "trim (slice_js (last ?evs) 6) = js ''answer''"
    by (simp add: slice_js_def trim_def is_white_def js_def)
  have d: "snd (parse_segment ?seg) = js ''x''"
    by (simp add: parse_segment_def split_def nl_def js_def startsWith_def slice_js_def trim_def
        is_white_def)
  have r: "replaceAll (js ''x'') backslash_n nl = js ''x''"
    by (simp add: js_def backslash_n_def startsWith_def)
  from last_event_line_wins [OF e n, of page_loaded] e [symmetric] show ?thesis
    unfolding t d
    by (simp add: dispatch_def page_loaded_def appendText_def r) (simp add: js_def)
qed

end
